theory Spec2Isabelle
  imports Complex_Main "HOL-Library.Char_ord" "HOL-Library.List_Lexorder"
    "HOL-Library.Product_Lexorder"
begin

section \<open>Data model\<close>

text \<open>
  \<^verbatim>\<open>class Employee\<close> (app.py, lines 8-12) has the three fields \<^verbatim>\<open>full_name\<close>,
  \<^verbatim>\<open>birth_date\<close> and \<^verbatim>\<open>gender\<close>, all Python strings. A string is a list of bytes
  (its UTF-8 encoding, which is what SQLite stores and compares). A row of the table
  \<^verbatim>\<open>employees\<close> is the same triple; the \<^verbatim>\<open>id\<close> column is never selected by the program
  and rows are kept in insertion (rowid) order.
\<close>

record employee =
  full_name :: string
  birth_date :: string
  gender :: string

text \<open>
  Exceptions become values. \<open>DatabaseError\<close> stands for any \<^verbatim>\<open>sqlite3.Error\<close> raised by a
  statement or a commit (missing table, constraint violation, I/O error, locked file).
\<close>

datatype error = DatabaseError | ZeroDivisionError | ValueError

text \<open>What a Python function returns: \<^verbatim>\<open>None\<close> when it has no \<^verbatim>\<open>return\<close> statement.\<close>

datatype pyval = PyNone | PyInt int

section \<open>The random source\<close>

text \<open>
  The module \<^verbatim>\<open>random\<close> is modelled as a stream of raw draws: the generator state is
  the function giving the draws still to come. \<^verbatim>\<open>random.choice(xs)\<close> picks index
  \<open>draw mod len(xs)\<close>, \<^verbatim>\<open>random.randint(a, b)\<close> gives \<open>a + draw mod (b - a + 1)\<close>; every
  element and every value of the range is reached by some draw. \<^verbatim>\<open>random.choice\<close>
  raises IndexError on an empty sequence; the program only passes non-empty literals.
\<close>

type_synonym rng = "nat \<Rightarrow> nat"

definition random_choice :: "'a list \<Rightarrow> rng \<Rightarrow> 'a \<times> rng" where
  "random_choice xs r = (xs ! (r 0 mod length xs), \<lambda>i. r (Suc i))"

definition randint :: "int \<Rightarrow> int \<Rightarrow> rng \<Rightarrow> int \<times> rng" where
  "randint a b r = (a + int (r 0) mod (b - a + 1), \<lambda>i. r (Suc i))"

section \<open>Formatting integers\<close>

text \<open>
  \<^verbatim>\<open>f"{year}-{month:02d}-{day:02d}"\<close> (lines 112 and 136): \<^verbatim>\<open>{year}\<close> is the decimal
  numeral of the integer, \<^verbatim>\<open>{month:02d}\<close> the same padded on the left with zeros to
  width two.
\<close>

definition digit :: "nat \<Rightarrow> char" where
  "digit d = char_of (48 + d)"

fun digits :: "nat \<Rightarrow> string" where
  "digits n = (if n < 10 then [digit n] else digits (n div 10) @ [digit (n mod 10)])"

declare digits.simps [simp del]

definition str_int :: "int \<Rightarrow> string" where
  "str_int i = (if i < 0 then CHR ''-'' # digits (nat (- i)) else digits (nat i))"

definition fmt_02d :: "int \<Rightarrow> string" where
  "fmt_02d i = (let s = str_int i in replicate (2 - length s) (CHR ''0'') @ s)"

section \<open>Generating one record\<close>

definition first_names_male :: "string list" where
  "first_names_male =
     [''Ivan'', ''Petr'', ''Sergey'', ''Andrey'', ''Alexey'', ''Dmitry'', ''Mikhail'', ''Nikolay'']"

definition first_names_female :: "string list" where
  "first_names_female =
     [''Anna'', ''Maria'', ''Elena'', ''Olga'', ''Tatyana'', ''Natalia'', ''Irina'', ''Svetlana'']"

definition last_names :: "string list" where
  "last_names =
     [''Ivanov'', ''Petrov'', ''Sidorov'', ''Smirnov'', ''Kuznetsov'', ''Popov'', ''Volkov'', ''Fedorov'']"

definition middle_names :: "string list" where
  "middle_names =
     [''Ivanovich'', ''Petrovich'', ''Sergeevich'', ''Andreevich'', ''Alexeevich'',
      ''Ivanovna'', ''Petrovna'', ''Sergeevna'', ''Andreevna'', ''Alexeevna'']"

text \<open>
  The draw of a birth date, lines 109-112 and again 133-136.
\<close>

definition random_birth_date :: "rng \<Rightarrow> string \<times> rng" where
  "random_birth_date r0 =
     (let (year, r1) = randint 1950 2005 r0;
          (month, r2) = randint 1 12 r1;
          (day, r3) = randint 1 28 r2
      in (str_int year @ ''-'' @ fmt_02d month @ ''-'' @ fmt_02d day, r3))"

text \<open>The body of the first loop of \<^verbatim>\<open>generate_random_employees\<close>, lines 98-114.\<close>

definition random_employee :: "rng \<Rightarrow> employee \<times> rng" where
  "random_employee r0 =
     (let (gen, r1) = random_choice [''Male'', ''Female''] r0;
          (first_name, r2) =
             (if gen = ''Male'' then random_choice first_names_male r1
              else random_choice first_names_female r1);
          (middle_name, r3) =
             (if gen = ''Male'' then random_choice (take 5 middle_names) r2
              else random_choice (drop 5 middle_names) r2);
          (last_name, r4) = random_choice last_names r3;
          (born, r5) = random_birth_date r4
      in (\<lparr>full_name = last_name @ '' '' @ first_name @ '' '' @ middle_name,
           birth_date = born, gender = gen\<rparr>, r5))"

text \<open>The body of the second loop, lines 128-138.\<close>

definition f_employee :: "rng \<Rightarrow> employee \<times> rng" where
  "f_employee r0 =
     (let (first_name, r1) = random_choice first_names_male r0;
          (middle_name, r2) = random_choice (take 5 middle_names) r1;
          (suffix, r3) =
             random_choice [''isher'', ''ord'', ''letcher'', ''ranklin'', ''erguson''] r2;
          last_name = ''F'' @ suffix;
          (born, r4) = random_birth_date r3
      in (\<lparr>full_name = last_name @ '' '' @ first_name @ '' '' @ middle_name,
           birth_date = born, gender = ''Male''\<rparr>, r4))"

text \<open>
  The second loop itself, lines 126-138: \<^verbatim>\<open>for i in range(100)\<close> appends one record per
  iteration; the first argument counts the iterations left.
\<close>

fun f_loop :: "nat \<Rightarrow> employee list \<Rightarrow> rng \<Rightarrow> employee list \<times> rng" where
  "f_loop 0 f_employees r = (f_employees, r)"
| "f_loop (Suc n) f_employees r =
     (let (e, r') = f_employee r in f_loop n (f_employees @ [e]) r')"

section \<open>The SQLite connection\<close>

text \<open>
  The state behind \<^verbatim>\<open>self.conn\<close> and \<^verbatim>\<open>self.cursor\<close>:
  \<^item> \<open>durable\<close>: the committed rows of the table, what the database file holds;
  \<^item> \<open>working\<close>: the rows this connection sees, the committed ones and those of its
    open transaction;
  \<^item> \<open>indexed\<close>: whether the index \<^verbatim>\<open>idx_gender_name\<close> exists;
  \<^item> \<open>fails\<close> and \<open>stmts\<close>: the storage layer's behaviour, the \<open>k\<close>-th operation issued
    on the connection (a row insert, a select, a DDL statement, a commit) raises iff
    \<open>fails k\<close>; \<open>stmts\<close> counts the operations issued so far. Any schedule of failures is
    a value of \<open>fails\<close>;
  \<^item> \<open>bare_row\<close>: SQLite's choice of the row of a group that gives a column outside
    the GROUP BY its value (reduced modulo the size of the group);
  \<^item> \<open>batch_log\<close>: an observer, the size of the list passed to each call of
    \<^verbatim>\<open>Employee.batch_save\<close>, oldest first.
\<close>

record connection =
  durable :: "employee list"
  working :: "employee list"
  indexed :: bool
  fails :: "nat \<Rightarrow> bool"
  stmts :: nat
  bare_row :: "employee list \<Rightarrow> nat"
  batch_log :: "nat list"

text \<open>
  \<^verbatim>\<open>cursor.executemany("INSERT ...", data)\<close> runs the insert once per tuple, in order,
  inside the connection's open transaction. A tuple whose insert raises stops the call;
  the rows inserted before it stay in the transaction, uncommitted.
\<close>

fun executemany :: "employee list \<Rightarrow> connection \<Rightarrow> (error + unit) \<times> connection" where
  "executemany [] c = (Inr (), c)"
| "executemany (e # es) c =
     (if fails c (stmts c) then (Inl DatabaseError, c\<lparr>stmts := Suc (stmts c)\<rparr>)
      else executemany es (c\<lparr>working := working c @ [e], stmts := Suc (stmts c)\<rparr>))"

text \<open>\<^verbatim>\<open>Employee.batch_save\<close>, lines 28-34.\<close>

definition batch_save :: "employee list \<Rightarrow> connection \<Rightarrow> (error + unit) \<times> connection" where
  "batch_save employees c =
     executemany employees (c\<lparr>batch_log := batch_log c @ [length employees]\<rparr>)"

text \<open>
  \<^verbatim>\<open>self.conn.commit()\<close>: the open transaction becomes durable, or the commit raises and
  nothing does.
\<close>

definition commit :: "connection \<Rightarrow> (error + unit) \<times> connection" where
  "commit c =
     (if fails c (stmts c) then (Inl DatabaseError, c\<lparr>stmts := Suc (stmts c)\<rparr>)
      else (Inr (), c\<lparr>durable := working c, stmts := Suc (stmts c)\<rparr>))"

text \<open>
  \<^verbatim>\<open>self.conn.close()\<close>, line 182, reached through the \<^verbatim>\<open>finally\<close> of \<^verbatim>\<open>main\<close>: an open
  transaction is discarded.
\<close>

definition close :: "connection \<Rightarrow> connection" where
  "close c = c\<lparr>working := durable c\<rparr>"

text \<open>
  The pair of statements \<^verbatim>\<open>Employee.batch_save(self.cursor, xs); self.conn.commit()\<close>
  of lines 117-118, 122-123 and 140-141. An exception in the first skips the second.
\<close>

definition insert_batch :: "employee list \<Rightarrow> connection \<Rightarrow> (error + unit) \<times> connection" where
  "insert_batch employees c =
     (case batch_save employees c of
        (Inl err, c') \<Rightarrow> (Inl err, c')
      | (Inr u, c') \<Rightarrow> commit c')"

section \<open>The bulk load\<close>

text \<open>
  The first loop of \<^verbatim>\<open>generate_random_employees\<close>, lines 97-119. The first argument
  counts the iterations of \<^verbatim>\<open>for i in range(count)\<close> that are left, the second is the
  buffer \<^verbatim>\<open>employees\<close>. The result is the buffer left when the loop ends, or the
  exception that ended it.
\<close>

fun random_loop ::
  "nat \<Rightarrow> employee list \<Rightarrow> rng \<Rightarrow> connection \<Rightarrow> (error + employee list) \<times> rng \<times> connection"
where
  "random_loop 0 employees r c = (Inr employees, r, c)"
| "random_loop (Suc n) employees r c =
     (let (e, r') = random_employee r;
          employees' = employees @ [e]
      in if length employees' \<ge> 1000 then
           (case insert_batch employees' c of
              (Inl err, c') \<Rightarrow> (Inl err, r', c')
            | (Inr u, c') \<Rightarrow> random_loop n [] r' c')
         else random_loop n employees' r' c)"

text \<open>
  Lines 95-123: the loop from an empty buffer, then \<^verbatim>\<open>if employees:\<close> flushes what is
  left. \<^verbatim>\<open>range(count)\<close> is empty for a negative \<^verbatim>\<open>count\<close>.
\<close>

definition random_section :: "int \<Rightarrow> rng \<Rightarrow> connection \<Rightarrow> (error + unit) \<times> rng \<times> connection" where
  "random_section count r c =
     (case random_loop (nat count) [] r c of
        (Inl err, r', c') \<Rightarrow> (Inl err, r', c')
      | (Inr employees, r', c') \<Rightarrow>
          (if employees \<noteq> [] then
             (case insert_batch employees c' of (res, c'') \<Rightarrow> (res, r', c''))
           else (Inr (), r', c')))"

text \<open>Lines 125-141: the hundred targeted records, saved as one batch.\<close>

definition f_section :: "rng \<Rightarrow> connection \<Rightarrow> (error + unit) \<times> rng \<times> connection" where
  "f_section r c =
     (let (f_employees, r') = f_loop 100 [] r
      in case insert_batch f_employees c of (res, c') \<Rightarrow> (res, r', c'))"

text \<open>
  \<^verbatim>\<open>EmployeeDirectory.generate_random_employees\<close>, lines 86-143. It has no \<^verbatim>\<open>return\<close>
  statement, so a run that raises nothing returns \<^verbatim>\<open>None\<close>.
\<close>

definition generate_random_employees ::
  "int \<Rightarrow> rng \<Rightarrow> connection \<Rightarrow> (error + pyval) \<times> rng \<times> connection"
where
  "generate_random_employees count r c =
     (case random_section count r c of
        (Inl err, r', c') \<Rightarrow> (Inl err, r', c')
      | (Inr u, r', c') \<Rightarrow>
          (case f_section r' c' of
             (Inl err, r'', c'') \<Rightarrow> (Inl err, r'', c'')
           | (Inr u', r'', c'') \<Rightarrow> (Inr PyNone, r'', c'')))"

text \<open>
  Three descriptions of a load, used to say what it commits and in which calls.
  \<open>random_employees n r\<close> is the list of the records that \<open>n\<close> iterations of the body of
  the first loop build from the random source \<open>r\<close>, in order, with the source left
  after them. \<open>load_sequence count r\<close> is that list for \<^verbatim>\<open>range(count)\<close> followed by the
  hundred records of the second loop. \<open>batch_plan n\<close> cuts \<open>n\<close> records into batches of
  1000 and a shorter last one.
\<close>

fun random_employees :: "nat \<Rightarrow> rng \<Rightarrow> employee list \<times> rng" where
  "random_employees 0 r = ([], r)"
| "random_employees (Suc n) r =
     (let (e, r') = random_employee r;
          (es, r'') = random_employees n r'
      in (e # es, r''))"

definition batch_plan :: "nat \<Rightarrow> nat list" where
  "batch_plan n =
     replicate (n div 1000) 1000 @ (if n mod 1000 = 0 then [] else [n mod 1000])"

definition load_sequence :: "int \<Rightarrow> rng \<Rightarrow> employee list" where
  "load_sequence count r =
     (let (es, r') = random_employees (nat count) r
      in es @ fst (f_loop 100 [] r'))"

section \<open>The platform: calendar and clocks\<close>

text \<open>
  What the program takes from the standard library and the operating system:
  \<^item> \<open>strptime\<close>: \<^verbatim>\<open>datetime.strptime(s, "%Y-%m-%d").date()\<close> as (year, month, day),
    \<open>None\<close> where it raises ValueError;
  \<^item> \<open>today\<close>: \<^verbatim>\<open>date.today()\<close>;
  \<^item> \<open>time_time\<close>: the value returned by the \<open>k\<close>-th call of \<^verbatim>\<open>time.time()\<close>, the
    wall clock in seconds since the epoch, which goes back when the system clock is
    set back; floats are read as the reals they denote;
  \<^item> \<open>nearest\<close>: the double nearest to a real number; a float operation gives the
    double nearest to the exact result;
  \<^item> \<open>monotonic\<close>: what a monotonic clock shows at the instant of that call (the program
    never reads it);
  \<^item> \<open>reads\<close>: the number of clock readings made so far.
\<close>

type_synonym date = "int \<times> int \<times> int"

record platform =
  strptime :: "string \<Rightarrow> date option"
  today :: date
  time_time :: "nat \<Rightarrow> real"
  monotonic :: "nat \<Rightarrow> real"
  nearest :: "real \<Rightarrow> real"
  reads :: nat

text \<open>\<^verbatim>\<open>Employee.calculate_age\<close>, lines 20-26.\<close>

definition calculate_age :: "platform \<Rightarrow> employee \<Rightarrow> error + int" where
  "calculate_age p e =
     (case strptime p (birth_date e) of
        None \<Rightarrow> Inl ValueError
      | Some (by, bm, bd) \<Rightarrow>
          (case today p of (ty, tm, td) \<Rightarrow>
             (let age = ty - by
              in if tm < bm \<or> (tm = bm \<and> td < bd) then Inr (age - 1) else Inr age)))"

text \<open>
  The printing loops of lines 80-82 and 164-166: one table line per row, with its age;
  the first row whose date does not parse ends the loop with ValueError.
\<close>

fun print_rows :: "platform \<Rightarrow> employee list \<Rightarrow> error + (employee \<times> int) list" where
  "print_rows p [] = Inr []"
| "print_rows p (emp # emps) =
     (case calculate_age p emp of
        Inl err \<Rightarrow> Inl err
      | Inr age \<Rightarrow>
          (case print_rows p emps of
             Inl err \<Rightarrow> Inl err
           | Inr printed \<Rightarrow> Inr ((emp, age) # printed)))"

section \<open>Listing\<close>

text \<open>
  The statement of lines 66-71,
  \<^verbatim>\<open>SELECT DISTINCT full_name, birth_date, gender FROM employees
  GROUP BY full_name, birth_date ORDER BY full_name\<close>, read clause by clause:
  one group per pair (full_name, birth_date); \<^verbatim>\<open>gender\<close> is outside the GROUP BY, so
  each group gives one output row whose gender is taken from one row of the group, chosen
  by SQLite; DISTINCT drops repeated output rows. SQLite forms the groups by sorting the
  rows on the GROUP BY terms, byte by byte (the BINARY collation), and gives the groups
  in that order, which is the order ORDER BY \<^verbatim>\<open>full_name\<close> asks for: rows with the same
  name come in the order of their birth dates.
\<close>

definition name_date :: "employee \<Rightarrow> string \<times> string" where
  "name_date e = (full_name e, birth_date e)"

definition group_rows :: "connection \<Rightarrow> string \<times> string \<Rightarrow> employee list" where
  "group_rows c k = filter (\<lambda>e. name_date e = k) (working c)"

definition group_output :: "connection \<Rightarrow> string \<times> string \<Rightarrow> employee" where
  "group_output c k =
     (let grp = group_rows c k;
          chosen = grp ! (bare_row c grp mod length grp)
      in \<lparr>full_name = fst k, birth_date = snd k, gender = gender chosen\<rparr>)"

definition select_distinct :: "connection \<Rightarrow> employee list" where
  "select_distinct c =
     sort_key name_date
       (remdups (map (group_output c) (remdups (map name_date (working c)))))"

text \<open>
  Lines 66-72 of \<^verbatim>\<open>display_all_employees\<close>: the statement is executed and fetched into
  \<^verbatim>\<open>employees\<close>.
\<close>

definition list_distinct :: "connection \<Rightarrow> (error + employee list) \<times> connection" where
  "list_distinct c =
     (if fails c (stmts c) then (Inl DatabaseError, c\<lparr>stmts := Suc (stmts c)\<rparr>)
      else (Inr (select_distinct c), c\<lparr>stmts := Suc (stmts c)\<rparr>))"

text \<open>
  \<^verbatim>\<open>EmployeeDirectory.display_all_employees\<close>, lines 65-84: the result is the table
  printed, one line per fetched row.
\<close>

definition display_all_employees ::
  "platform \<Rightarrow> connection \<Rightarrow> (error + (employee \<times> int) list) \<times> connection"
where
  "display_all_employees p c =
     (case list_distinct c of
        (Inl err, c') \<Rightarrow> (Inl err, c')
      | (Inr employees, c') \<Rightarrow> (print_rows p employees, c'))"

section \<open>The filter query and its timing\<close>

text \<open>
  \<^verbatim>\<open>full_name LIKE 'F%'\<close>: SQLite's LIKE ignores the case of ASCII letters.
\<close>

definition like_F :: "string \<Rightarrow> bool" where
  "like_F s = (case s of [] \<Rightarrow> False | ch # rest \<Rightarrow> ch = CHR ''F'' \<or> ch = CHR ''f'')"

text \<open>
  The statement of lines 148-152. Without the index the table is scanned in rowid order;
  with the index on (gender, full_name) the rows with gender 'Male' are visited in the
  order of the index, by full_name and then by rowid.
\<close>

definition select_male_f :: "connection \<Rightarrow> employee list" where
  "select_male_f c =
     (let hits = filter (\<lambda>e. gender e = ''Male'' \<and> like_F (full_name e)) (working c)
      in if indexed c then sort_key full_name hits else hits)"

text \<open>
  \<^verbatim>\<open>EmployeeDirectory.query_male_f_surnames\<close>, lines 145-173. The function returns
  \<^verbatim>\<open>execution_time\<close>; the model also gives the rows fetched into \<^verbatim>\<open>results\<close>, which the
  function prints (the first ten, each with its age) and counts. The difference of the
  two readings is taken exactly.
\<close>

definition query_male_f_surnames ::
  "platform \<Rightarrow> connection \<Rightarrow> (error + employee list \<times> real) \<times> platform \<times> connection"
where
  "query_male_f_surnames p c =
     (let start_time = time_time p (reads p);
          p1 = p\<lparr>reads := Suc (reads p)\<rparr>;
          c1 = c\<lparr>stmts := Suc (stmts c)\<rparr>
      in if fails c (stmts c) then (Inl DatabaseError, p1, c1)
         else
           (let results = select_male_f c;
                end_time = time_time p1 (reads p1);
                p2 = p1\<lparr>reads := Suc (reads p1)\<rparr>;
                execution_time = end_time - start_time
            in case print_rows p2 (take 10 results) of
                 Inl err \<Rightarrow> (Inl err, p2, c1)
               | Inr printed \<Rightarrow> (Inr (results, execution_time), p2, c1)))"

text \<open>\<^verbatim>\<open>EmployeeDirectory.optimize_database\<close>, lines 175-179.\<close>

definition optimize_database :: "connection \<Rightarrow> (error + unit) \<times> connection" where
  "optimize_database c =
     (if fails c (stmts c) then (Inl DatabaseError, c\<lparr>stmts := Suc (stmts c)\<rparr>)
      else commit (c\<lparr>indexed := True, stmts := Suc (stmts c)\<rparr>))"

section \<open>Mode 6 of main\<close>

text \<open>
  Lines 222-228: the query, the index, the query again. The result keeps what each run
  fetched and the time it returned.
\<close>

definition mode_6_runs ::
  "platform \<Rightarrow> connection \<Rightarrow>
     (error + (employee list \<times> real) \<times> (employee list \<times> real)) \<times> platform \<times> connection"
where
  "mode_6_runs p c =
     (case query_male_f_surnames p c of
        (Inl err, p1, c1) \<Rightarrow> (Inl err, p1, c1)
      | (Inr before, p1, c1) \<Rightarrow>
          (case optimize_database c1 of
             (Inl err, c2) \<Rightarrow> (Inl err, p1, c2)
           | (Inr u, c2) \<Rightarrow>
               (case query_male_f_surnames p1 c2 of
                  (Inl err, p2, c3) \<Rightarrow> (Inl err, p2, c3)
                | (Inr after, p2, c3) \<Rightarrow> (Inr (before, after), p2, c3))))"

text \<open>
  Line 235, \<^verbatim>\<open>improvement = (time_before - time_after)/time_before * 100\<close>: three float
  operations, each rounded to the nearest double. Python's float division raises
  ZeroDivisionError when the divisor is zero.
\<close>

definition improvement :: "platform \<Rightarrow> real \<Rightarrow> real \<Rightarrow> error + real" where
  "improvement p time_before time_after =
     (if time_before = 0 then Inl ZeroDivisionError
      else Inr (nearest p (nearest p (nearest p (time_before - time_after) / time_before) * 100)))"

text \<open>
  Lines 221-237: the value is the percentage printed on the line \<^verbatim>\<open>Improvement:\<close>, or the
  exception that the handler of \<^verbatim>\<open>main\<close> reports instead.
\<close>

definition mode_6 :: "platform \<Rightarrow> connection \<Rightarrow> (error + real) \<times> platform \<times> connection" where
  "mode_6 p c =
     (case mode_6_runs p c of
        (Inl err, p', c') \<Rightarrow> (Inl err, p', c')
      | (Inr ((results_before, time_before), (results_after, time_after)), p', c') \<Rightarrow>
          (improvement p' time_before time_after, p', c'))"

section \<open>ISO 8601 calendar dates\<close>

text \<open>
  The reading of a text \<^verbatim>\<open>YYYY-MM-DD\<close> as a calendar date: four digits, a hyphen, two
  digits, a hyphen, two digits, with the month in 1..12 and the day within the month.
  It is the yardstick for the dates the generator writes, and no part of the program:
  the program formats dates, and reads them back only through \<^verbatim>\<open>strptime\<close>.
\<close>

definition digit_value :: "char \<Rightarrow> nat option" where
  "digit_value ch =
     (if CHR ''0'' \<le> ch \<and> ch \<le> CHR ''9'' then Some (of_char ch - 48) else None)"

fun number :: "string \<Rightarrow> nat option" where
  "number [] = Some 0"
| "number (ch # rest) =
     (case (digit_value ch, number rest) of
        (Some d, Some n) \<Rightarrow> Some (d * 10 ^ length rest + n)
      | _ \<Rightarrow> None)"

definition leap_year :: "nat \<Rightarrow> bool" where
  "leap_year y = (y mod 4 = 0 \<and> (y mod 100 \<noteq> 0 \<or> y mod 400 = 0))"

definition days_in_month :: "nat \<Rightarrow> nat \<Rightarrow> nat" where
  "days_in_month y m =
     (if m = 2 then (if leap_year y then 29 else 28)
      else if m = 4 \<or> m = 6 \<or> m = 9 \<or> m = 11 then 30 else 31)"

definition iso_date :: "string \<Rightarrow> (nat \<times> nat \<times> nat) option" where
  "iso_date s =
     (if length s = 10 \<and> s ! 4 = CHR ''-'' \<and> s ! 7 = CHR ''-'' then
        (case (number (take 4 s), number (take 2 (drop 5 s)), number (drop 8 s)) of
           (Some y, Some m, Some d) \<Rightarrow>
             (if 1 \<le> m \<and> m \<le> 12 \<and> 1 \<le> d \<and> d \<le> days_in_month y m
              then Some (y, m, d) else None)
         | _ \<Rightarrow> None)
      else None)"

text \<open>The dates a generated record may carry: a calendar date of the years 1950 to 2005,
  with the day at most 28.\<close>

definition birth_date_in_range :: "string \<Rightarrow> bool" where
  "birth_date_in_range s =
     (case iso_date s of
        None \<Rightarrow> False
      | Some (y, m, d) \<Rightarrow> 1950 \<le> y \<and> y \<le> 2005 \<and> 1 \<le> m \<and> m \<le> 12 \<and> 1 \<le> d \<and> d \<le> 28)"

section \<open>Concrete inputs\<close>

text \<open>
  Storage schedules (none of the operations fails; exactly the \<open>j\<close>-th fails), the
  connection to a table that is empty, a constant random source, and some rows.
\<close>

definition no_failure :: "nat \<Rightarrow> bool" where
  "no_failure k = False"

definition fail_at :: "nat \<Rightarrow> nat \<Rightarrow> bool" where
  "fail_at j k = (k = j)"

definition first_row :: "employee list \<Rightarrow> nat" where
  "first_row grp = 0"

definition last_row :: "employee list \<Rightarrow> nat" where
  "last_row grp = length grp - 1"

definition table_of :: "employee list \<Rightarrow> (nat \<Rightarrow> bool) \<Rightarrow> connection" where
  "table_of rows schedule =
     \<lparr>durable = rows, working = rows, indexed = False, fails = schedule, stmts = 0,
      bare_row = first_row, batch_log = []\<rparr>"

definition zero_rng :: rng where
  "zero_rng k = 0"

text \<open>What the two loop bodies build from the constant random source.\<close>

definition drawn_zero :: employee where
  "drawn_zero = \<lparr>full_name = ''Ivanov Ivan Ivanovich'', birth_date = ''1950-01-01'', gender = ''Male''\<rparr>"

definition fisher :: employee where
  "fisher = \<lparr>full_name = ''Fisher Ivan Ivanovich'', birth_date = ''1950-01-01'', gender = ''Male''\<rparr>"

definition ivanov :: employee where
  "ivanov = \<lparr>full_name = ''Ivanov Ivan Ivanovich'', birth_date = ''1990-05-15'', gender = ''Male''\<rparr>"

definition ivanov_elder :: employee where
  "ivanov_elder = \<lparr>full_name = ''Ivanov Ivan Ivanovich'', birth_date = ''1985-03-02'', gender = ''Male''\<rparr>"

definition ivanova :: employee where
  "ivanova = \<lparr>full_name = ''Ivanov Ivan Ivanovich'', birth_date = ''1990-05-15'', gender = ''Female''\<rparr>"

definition petrova :: employee where
  "petrova = \<lparr>full_name = ''Petrova Anna Ivanovna'', birth_date = ''1985-11-02'', gender = ''Female''\<rparr>"

text \<open>
  Platforms: a \<^verbatim>\<open>strptime\<close> that accepts the strict form \<^verbatim>\<open>YYYY-MM-DD\<close>, the first of
  June 2024 as today, a monotonic clock that advances by one second per reading, and
  three wall clocks: one that runs, one that is set back by a minute during the first
  query, one that stands still. The runs made on these platforms only produce integers
  and halves, which are doubles, so that rounding to the nearest double changes nothing
  there.
\<close>

definition unrounded :: "real \<Rightarrow> real" where
  "unrounded x = x"

definition strptime_iso :: "string \<Rightarrow> date option" where
  "strptime_iso s =
     (case iso_date s of None \<Rightarrow> None | Some (y, m, d) \<Rightarrow> Some (int y, int m, int d))"

definition steady :: "nat \<Rightarrow> real" where
  "steady k = real k"

definition wall_running :: "nat \<Rightarrow> real" where
  "wall_running k = (if k = 0 then 10 else if k = 1 then 12 else if k = 2 then 20 else 21)"

definition wall_set_back :: "nat \<Rightarrow> real" where
  "wall_set_back k = (if k = 0 then 100 else if k = 1 then 40 else if k = 2 then 200 else 201)"

definition wall_standing :: "nat \<Rightarrow> real" where
  "wall_standing k = 5"

definition platform_of :: "(nat \<Rightarrow> real) \<Rightarrow> platform" where
  "platform_of wall =
     \<lparr>strptime = strptime_iso, today = (2024, 6, 1), time_time = wall, monotonic = steady,
      nearest = unrounded, reads = 0\<rparr>"

definition fletcher :: employee where
  "fletcher = \<lparr>full_name = ''Fletcher Petr Petrovich'', birth_date = ''1950-01-01'', gender = ''Male''\<rparr>"

section \<open>Batches are committed whole\<close>

lemma executemany_keeps:
  "durable (snd (executemany es c)) = durable c \<and> fails (snd (executemany es c)) = fails c
   \<and> batch_log (snd (executemany es c)) = batch_log c
   \<and> indexed (snd (executemany es c)) = indexed c"
  by (induction es arbitrary: c) auto

lemma executemany_working:
  "fst (executemany es c) = Inr u \<Longrightarrow> working (snd (executemany es c)) = working c @ es"
  by (induction es arbitrary: c) (auto split: if_splits)

lemma executemany_never:
  "\<forall>k. \<not> fails c k \<Longrightarrow> fst (executemany es c) = Inr ()"
  by (induction es arbitrary: c) auto

lemma insert_batch_Inr:
  assumes "insert_batch es c = (Inr u, c')"
  shows "durable c' = working c @ es \<and> working c' = durable c' \<and> fails c' = fails c
         \<and> batch_log c' = batch_log c @ [length es]"
proof -
  let ?b = "c\<lparr>batch_log := batch_log c @ [length es]\<rparr>"
  obtain res c1 where ex: "executemany es ?b = (res, c1)"
    by (cases "executemany es ?b")
  from assms ex obtain v where res: "res = Inr v" and cm: "commit c1 = (Inr u, c')"
    by (cases res) (auto simp: insert_batch_def batch_save_def)
  from ex res have w: "working c1 = working c @ es"
    using executemany_working [of es ?b v] by simp
  from ex have k: "fails c1 = fails c" "batch_log c1 = batch_log c @ [length es]"
    using executemany_keeps [of es ?b] by simp_all
  from cm w k show ?thesis
    by (auto simp: commit_def split: if_splits)
qed

lemma insert_batch_Inl:
  assumes "insert_batch es c = (Inl err, c')"
  shows "durable c' = durable c \<and> fails c' = fails c
         \<and> batch_log c' = batch_log c @ [length es]"
proof -
  let ?b = "c\<lparr>batch_log := batch_log c @ [length es]\<rparr>"
  obtain res c1 where ex: "executemany es ?b = (res, c1)"
    by (cases "executemany es ?b")
  from ex have k: "durable c1 = durable c" "fails c1 = fails c"
      "batch_log c1 = batch_log c @ [length es]"
    using executemany_keeps [of es ?b] by simp_all
  from assms ex k show ?thesis
    by (cases res) (auto simp: insert_batch_def batch_save_def commit_def split: if_splits)
qed

lemma insert_batch_never:
  assumes "\<forall>k. \<not> fails c k"
  shows "fst (insert_batch es c) = Inr ()"
proof -
  let ?b = "c\<lparr>batch_log := batch_log c @ [length es]\<rparr>"
  obtain res c1 where ex: "executemany es ?b = (res, c1)"
    by (cases "executemany es ?b")
  from assms have "fst (executemany es ?b) = Inr ()"
    by (intro executemany_never) simp
  with ex have res: "res = Inr ()" by simp
  from ex have "fails c1 = fails c"
    using executemany_keeps [of es ?b] by simp
  with assms ex res show ?thesis
    by (simp add: insert_batch_def batch_save_def commit_def)
qed

lemma batch_save_durable: "durable (snd (batch_save es c)) = durable c"
  using executemany_keeps [of es "c\<lparr>batch_log := batch_log c @ [length es]\<rparr>"]
  by (simp add: batch_save_def)

text \<open>
  Claim C1. On a connection with no open transaction, \<^verbatim>\<open>batch_save\<close> followed by
  \<^verbatim>\<open>commit\<close> either succeeds, and then the committed table is the old one followed by
  exactly the records of the batch, or raises, and then the committed table is the old
  one, also after the connection is closed. \<^verbatim>\<open>batch_save\<close> alone never changes the
  committed table, whether it raises in the middle of the batch or not.
\<close>

theorem insert_batch_all_or_nothing:
  assumes "working c = durable c"
  shows "durable (snd (batch_save records c)) = durable c \<and>
         (case insert_batch records c of
            (Inr u, c') \<Rightarrow> durable c' = durable c @ records
                \<and> length (durable c') = length (durable c) + length records
          | (Inl err, c') \<Rightarrow> durable c' = durable c \<and> durable (close c') = durable c
                \<and> length (working (close c')) = length (durable c))"
proof -
  obtain res c' where ib: "insert_batch records c = (res, c')"
    by (cases "insert_batch records c")
  show ?thesis
  proof (cases res)
    case (Inl err)
    with ib have "durable c' = durable c"
      using insert_batch_Inl [of records c err c'] by simp
    with ib Inl show ?thesis
      by (simp add: batch_save_durable close_def)
  next
    case (Inr u)
    with ib assms have "durable c' = durable c @ records"
      using insert_batch_Inr [of records c u c'] by simp
    with ib Inr show ?thesis
      by (simp add: batch_save_durable)
  qed
qed

text \<open>
  A batch of three rows on an empty table, where the insert of the third row raises:
  two rows are in the open transaction when the exception leaves \<^verbatim>\<open>batch_save\<close>, and
  nothing is committed.
\<close>

theorem insert_batch_all_or_nothing_witness:
  "working (table_of [] (fail_at 2)) = durable (table_of [] (fail_at 2)) \<and>
   fst (insert_batch [ivanov, petrova, ivanov] (table_of [] (fail_at 2))) = Inl DatabaseError \<and>
   working (snd (insert_batch [ivanov, petrova, ivanov] (table_of [] (fail_at 2))))
     = [ivanov, petrova] \<and>
   durable (snd (insert_batch [ivanov, petrova, ivanov] (table_of [] (fail_at 2)))) = [] \<and>
   working (close (snd (insert_batch [ivanov, petrova, ivanov] (table_of [] (fail_at 2))))) = []"
proof -
  have h: "working (table_of [] (fail_at 2)) = durable (table_of [] (fail_at 2))"
    by (simp add: table_of_def)
  have run: "insert_batch [ivanov, petrova, ivanov] (table_of [] (fail_at 2)) =
      (Inl DatabaseError,
       \<lparr>durable = [], working = [ivanov, petrova], indexed = False, fails = fail_at 2,
        stmts = 3, bare_row = first_row, batch_log = [3]\<rparr>)"
    by (simp add: insert_batch_def batch_save_def table_of_def fail_at_def)
  show ?thesis
    using h insert_batch_all_or_nothing [OF h, of "[ivanov, petrova, ivanov]"]
    by (simp add: run close_def)
qed

section \<open>The loops of the bulk load\<close>

lemma random_loop_Inr:
  assumes "random_loop n buf r c = (Inr rest, r', c')"
    and "working c = durable c" and "length buf < 1000"
  shows "working c' = durable c' \<and> fails c' = fails c
       \<and> length rest = (length buf + n) mod 1000
       \<and> (\<exists>new. durable c' @ rest = durable c @ buf @ new \<and> length new = n
              \<and> (\<forall>e\<in>set new. \<exists>r0. e = fst (random_employee r0)))
       \<and> batch_log c' = batch_log c @ replicate ((length buf + n) div 1000) 1000"
  using assms
proof (induction n arbitrary: buf r c)
  case 0
  then show ?case by simp
next
  case (Suc n)
  obtain e r1 where re: "random_employee r = (e, r1)"
    by (cases "random_employee r")
  have dr: "\<exists>r0. e = fst (random_employee r0)"
    using re by (metis fst_conv)
  show ?case
  proof (cases "length buf = 999")
    case True
    obtain res c1 where ib: "insert_batch (buf @ [e]) c = (res, c1)"
      by (cases "insert_batch (buf @ [e]) c")
    from Suc.prems(1) re True ib obtain u where res: "res = Inr u"
      and rec: "random_loop n [] r1 c1 = (Inr rest, r', c')"
      by (cases res) auto
    from ib res Suc.prems(2) have c1: "durable c1 = durable c @ buf @ [e]"
        "working c1 = durable c1" "fails c1 = fails c"
        "batch_log c1 = batch_log c @ [1000]"
      using insert_batch_Inr [of "buf @ [e]" c u c1] True by simp_all
    from Suc.IH [OF rec c1(2)] obtain new where
      ih: "working c' = durable c'" "fails c' = fails c1"
        "length rest = (length ([]::employee list) + n) mod 1000"
        "durable c' @ rest = durable c1 @ [] @ new" "length new = n"
        "\<forall>x\<in>set new. \<exists>r0. x = fst (random_employee r0)"
        "batch_log c' = batch_log c1 @ replicate ((length ([]::employee list) + n) div 1000) 1000"
      by auto
    have d: "(length buf + Suc n) div 1000 = Suc (n div 1000)"
      using True by simp
    have m: "(length buf + Suc n) mod 1000 = n mod 1000"
      using True by simp
    have "durable c' @ rest = durable c @ buf @ (e # new) \<and> length (e # new) = Suc n
        \<and> (\<forall>x\<in>set (e # new). \<exists>r0. x = fst (random_employee r0))"
      using ih c1 dr by simp
    then have ex: "\<exists>new. durable c' @ rest = durable c @ buf @ new \<and> length new = Suc n
        \<and> (\<forall>x\<in>set new. \<exists>r0. x = fst (random_employee r0))"
      by blast
    have "batch_log c' = batch_log c @ replicate ((length buf + Suc n) div 1000) 1000"
      using ih(7) c1(4) d by simp
    with ih(1,2,3) c1(3) ex m show ?thesis by simp
  next
    case False
    with Suc.prems(3) have lt: "length (buf @ [e]) < 1000" by simp
    from Suc.prems(1) re lt have rec: "random_loop n (buf @ [e]) r1 c = (Inr rest, r', c')"
      by simp
    from Suc.IH [OF rec Suc.prems(2) lt] obtain new where
      ih: "working c' = durable c'" "fails c' = fails c"
        "length rest = (length (buf @ [e]) + n) mod 1000"
        "durable c' @ rest = durable c @ (buf @ [e]) @ new" "length new = n"
        "\<forall>x\<in>set new. \<exists>r0. x = fst (random_employee r0)"
        "batch_log c' = batch_log c @ replicate ((length (buf @ [e]) + n) div 1000) 1000"
      by auto
    have "durable c' @ rest = durable c @ buf @ (e # new) \<and> length (e # new) = Suc n
        \<and> (\<forall>x\<in>set (e # new). \<exists>r0. x = fst (random_employee r0))"
      using ih dr by simp
    then have ex: "\<exists>new. durable c' @ rest = durable c @ buf @ new \<and> length new = Suc n
        \<and> (\<forall>x\<in>set new. \<exists>r0. x = fst (random_employee r0))"
      by blast
    with ih(1,2,3,7) show ?thesis by simp
  qed
qed

lemma random_loop_Inl:
  assumes "random_loop n buf r c = (Inl err, r', c')"
    and "working c = durable c" and "length buf < 1000"
  shows "\<exists>j. length (durable c') = length (durable c) + 1000 * j \<and> 1000 * j \<le> length buf + n"
  using assms
proof (induction n arbitrary: buf r c)
  case 0
  then show ?case by simp
next
  case (Suc n)
  obtain e r1 where re: "random_employee r = (e, r1)"
    by (cases "random_employee r")
  show ?case
  proof (cases "length buf = 999")
    case True
    obtain res c1 where ib: "insert_batch (buf @ [e]) c = (res, c1)"
      by (cases "insert_batch (buf @ [e]) c")
    show ?thesis
    proof (cases res)
      case (Inl err1)
      with Suc.prems(1) re True ib have "c' = c1" by simp
      with ib Inl have "durable c' = durable c"
        using insert_batch_Inl [of "buf @ [e]" c err1 c1] by simp
      then have "length (durable c') = length (durable c) + 1000 * 0 \<and> 1000 * 0 \<le> length buf + Suc n"
        by simp
      then show ?thesis by blast
    next
      case (Inr u)
      with Suc.prems(1) re True ib have rec: "random_loop n [] r1 c1 = (Inl err, r', c')"
        by simp
      from ib Inr Suc.prems(2) have c1: "durable c1 = durable c @ buf @ [e]"
        "working c1 = durable c1"
        using insert_batch_Inr [of "buf @ [e]" c u c1] by simp_all
      from Suc.IH [OF rec c1(2)] obtain j where
        j: "length (durable c') = length (durable c1) + 1000 * j" "1000 * j \<le> length ([]::employee list) + n"
        by auto
      have "length (durable c') = length (durable c) + 1000 * Suc j \<and> 1000 * Suc j \<le> length buf + Suc n"
        using j c1(1) True by simp
      then show ?thesis by blast
    qed
  next
    case False
    with Suc.prems(3) have lt: "length (buf @ [e]) < 1000" by simp
    from Suc.prems(1) re lt have rec: "random_loop n (buf @ [e]) r1 c = (Inl err, r', c')"
      by simp
    from Suc.IH [OF rec Suc.prems(2) lt] show ?thesis by auto
  qed
qed

lemma random_loop_never:
  assumes "\<forall>k. \<not> fails c k"
  shows "\<exists>rest r' c'. random_loop n buf r c = (Inr rest, r', c')"
  using assms
proof (induction n arbitrary: buf r c)
  case 0
  then show ?case by simp
next
  case (Suc n)
  obtain e r1 where re: "random_employee r = (e, r1)"
    by (cases "random_employee r")
  obtain res c1 where ib: "insert_batch (buf @ [e]) c = (res, c1)"
    by (cases "insert_batch (buf @ [e]) c")
  from Suc.prems have "fst (insert_batch (buf @ [e]) c) = Inr ()"
    by (rule insert_batch_never)
  with ib have res: "res = Inr ()" by simp
  with ib have "fails c1 = fails c"
    using insert_batch_Inr [of "buf @ [e]" c "()" c1] by simp
  with Suc.prems have nf: "\<forall>k. \<not> fails c1 k" by simp
  show ?case
  proof (cases "length (buf @ [e]) \<ge> 1000")
    case True
    with re ib res Suc.IH [OF nf, of "[]" r1] show ?thesis by simp
  next
    case False
    with re Suc.IH [OF Suc.prems, of "buf @ [e]" r1] show ?thesis by simp
  qed
qed


lemma random_section_Inr:
  assumes "random_section count r c = (Inr u, r', c')" and "working c = durable c"
  shows "working c' = durable c' \<and> fails c' = fails c
       \<and> (\<exists>new. durable c' = durable c @ new \<and> length new = nat count
              \<and> (\<forall>e\<in>set new. \<exists>r0. e = fst (random_employee r0)))
       \<and> batch_log c' = batch_log c @ replicate (nat count div 1000) 1000
              @ (if nat count mod 1000 = 0 then [] else [nat count mod 1000])"
proof -
  obtain res r1 c1 where lp: "random_loop (nat count) [] r c = (res, r1, c1)"
    by (cases "random_loop (nat count) [] r c")
  from assms(1) lp obtain rest where res: "res = Inr rest"
    by (cases res) (auto simp: random_section_def)
  from lp res assms(2) obtain new where
    l: "working c1 = durable c1" "fails c1 = fails c" "length rest = nat count mod 1000"
       "durable c1 @ rest = durable c @ new" "length new = nat count"
       "\<forall>e\<in>set new. \<exists>r0. e = fst (random_employee r0)"
       "batch_log c1 = batch_log c @ replicate (nat count div 1000) 1000"
    using random_loop_Inr [of "nat count" "[]" r c rest r1 c1] by auto
  show ?thesis
  proof (cases "rest = []")
    case True
    with assms(1) lp res have "c' = c1" by (simp add: random_section_def)
    moreover from True l(3) have "nat count mod 1000 = 0" by simp
    ultimately show ?thesis using l True by auto
  next
    case False
    with assms(1) lp res have ib: "insert_batch rest c1 = (Inr u, c')"
      by (auto simp: random_section_def split: prod.splits)
    from False have "length rest \<noteq> 0" by simp
    with l(3) have "nat count mod 1000 \<noteq> 0" by metis
    with insert_batch_Inr [OF ib] l show ?thesis by auto
  qed
qed

lemma random_section_Inl:
  assumes "random_section count r c = (Inl err, r', c')" and "working c = durable c"
  shows "\<exists>j. length (durable c') = length (durable c) + 1000 * j \<and> 1000 * j \<le> nat count"
proof -
  obtain res r1 c1 where lp: "random_loop (nat count) [] r c = (res, r1, c1)"
    by (cases "random_loop (nat count) [] r c")
  show ?thesis
  proof (cases res)
    case (Inl err1)
    with assms(1) lp have "c' = c1" by (simp add: random_section_def)
    with lp Inl assms(2) show ?thesis
      using random_loop_Inl [of "nat count" "[]" r c err1 r1 c1] by simp
  next
    case (Inr rest)
    with lp assms(2) obtain new where
      l: "length rest = nat count mod 1000" "durable c1 @ rest = durable c @ new"
         "length new = nat count"
      using random_loop_Inr [of "nat count" "[]" r c rest r1 c1] by auto
    from l(2) have "length (durable c1) + length rest = length (durable c) + length new"
      by (metis length_append)
    with l have e: "length (durable c1) + nat count mod 1000 = length (durable c) + nat count"
      by simp
    have "1000 * (nat count div 1000) + nat count mod 1000 = nat count"
      by (rule mult_div_mod_eq)
    with e have len: "length (durable c1) = length (durable c) + 1000 * (nat count div 1000)"
      by linarith
    from assms(1) lp Inr have ib: "insert_batch rest c1 = (Inl err, c')"
      by (auto simp: random_section_def split: prod.splits if_splits)
    from insert_batch_Inl [OF ib] len
    have "length (durable c') = length (durable c) + 1000 * (nat count div 1000)
        \<and> 1000 * (nat count div 1000) \<le> nat count"
      by simp
    then show ?thesis by blast
  qed
qed

lemma random_section_never:
  assumes "\<forall>k. \<not> fails c k" and "working c = durable c"
  shows "fst (random_section count r c) = Inr ()"
proof -
  from random_loop_never [OF assms(1)] obtain rest r1 c1
    where lp: "random_loop (nat count) [] r c = (Inr rest, r1, c1)"
    by blast
  from random_loop_Inr [OF lp assms(2)] assms(1) have "\<forall>k. \<not> fails c1 k"
    by simp
  then have ok: "fst (insert_batch rest c1) = Inr ()"
    by (rule insert_batch_never)
  obtain x c2 where ib: "insert_batch rest c1 = (x, c2)"
    by (cases "insert_batch rest c1")
  with ok have "x = Inr ()" by simp
  with lp ib show ?thesis
    by (simp add: random_section_def)
qed

lemma f_loop_appends:
  "\<exists>new. fst (f_loop n buf r) = buf @ new \<and> length new = n
      \<and> (\<forall>e\<in>set new. \<exists>r0. e = fst (f_employee r0))"
proof (induction n arbitrary: buf r)
  case 0
  then show ?case by simp
next
  case (Suc n)
  obtain e r1 where fe: "f_employee r = (e, r1)"
    by (cases "f_employee r")
  from Suc.IH [of "buf @ [e]" r1] obtain new where
    n: "fst (f_loop n (buf @ [e]) r1) = (buf @ [e]) @ new" "length new = n"
       "\<forall>x\<in>set new. \<exists>r0. x = fst (f_employee r0)"
    by blast
  have "\<exists>r0. e = fst (f_employee r0)"
    using fe by (metis fst_conv)
  with n fe have "fst (f_loop (Suc n) buf r) = buf @ (e # new) \<and> length (e # new) = Suc n
      \<and> (\<forall>x\<in>set (e # new). \<exists>r0. x = fst (f_employee r0))"
    by simp
  then show ?case by blast
qed

lemma f_loop_length: "length (fst (f_loop n [] r)) = n"
  using f_loop_appends [of n "[]" r] by auto

lemma f_section_Inr:
  assumes "f_section r c = (Inr u, r', c')" and "working c = durable c"
  shows "durable c' = durable c @ fst (f_loop 100 [] r) \<and> working c' = durable c'
       \<and> fails c' = fails c \<and> batch_log c' = batch_log c @ [100]"
proof -
  from assms(1) have ib: "insert_batch (fst (f_loop 100 [] r)) c = (Inr u, c')"
    by (auto simp: f_section_def split: prod.splits)
  from insert_batch_Inr [OF ib] assms(2) show ?thesis
    by (simp add: f_loop_length)
qed

lemma f_section_Inl:
  assumes "f_section r c = (Inl err, r', c')"
  shows "durable c' = durable c"
proof -
  from assms(1) have ib: "insert_batch (fst (f_loop 100 [] r)) c = (Inl err, c')"
    by (auto simp: f_section_def split: prod.splits)
  from insert_batch_Inl [OF ib] show ?thesis by simp
qed

lemma f_section_never:
  assumes "\<forall>k. \<not> fails c k"
  shows "fst (f_section r c) = Inr ()"
proof -
  obtain es r1 where fl: "f_loop 100 [] r = (es, r1)"
    by (cases "f_loop 100 [] r")
  obtain x c2 where ib: "insert_batch es c = (x, c2)"
    by (cases "insert_batch es c")
  from insert_batch_never [OF assms, of es] ib have "x = Inr ()" by simp
  with fl ib show ?thesis
    by (simp add: f_section_def)
qed

lemma generate_Inr:
  assumes "generate_random_employees count r c = (Inr v, r', c')"
    and "working c = durable c"
  shows "v = PyNone \<and> length (durable c') = length (durable c) + nat count + 100
       \<and> working c' = durable c'"
proof -
  obtain res r1 c1 where rs: "random_section count r c = (res, r1, c1)"
    by (cases "random_section count r c")
  from assms(1) rs obtain u where res: "res = Inr u"
    by (cases res) (auto simp: generate_random_employees_def)
  obtain res2 r2 c2 where fs: "f_section r1 c1 = (res2, r2, c2)"
    by (cases "f_section r1 c1")
  from assms(1) rs res fs obtain u2 where res2: "res2 = Inr u2" and eq: "v = PyNone" "c' = c2"
    by (cases res2) (auto simp: generate_random_employees_def)
  from rs res assms(2) obtain new where
    a: "working c1 = durable c1" "durable c1 = durable c @ new" "length new = nat count"
    using random_section_Inr [of count r c u r1 c1] by auto
  from fs res2 a(1) have b: "durable c2 = durable c1 @ fst (f_loop 100 [] r1)"
    "working c2 = durable c2"
    using f_section_Inr [of r1 c1 u2 r2 c2] by simp_all
  from a b eq show ?thesis by (simp add: f_loop_length)
qed

lemma generate_Inl:
  assumes "generate_random_employees count r c = (Inl err, r', c')"
    and "working c = durable c"
  shows "\<exists>k. length (durable c') = length (durable c) + k
            \<and> (k = nat count \<or> (1000 dvd k \<and> k \<le> nat count))"
proof -
  obtain res r1 c1 where rs: "random_section count r c = (res, r1, c1)"
    by (cases "random_section count r c")
  show ?thesis
  proof (cases res)
    case (Inl err1)
    with assms(1) rs have "c' = c1" by (simp add: generate_random_employees_def)
    with rs Inl assms(2) obtain j where
      "length (durable c') = length (durable c) + 1000 * j" "1000 * j \<le> nat count"
      using random_section_Inl [of count r c err1 r1 c1] by auto
    then have "length (durable c') = length (durable c) + 1000 * j
        \<and> (1000 * j = nat count \<or> (1000 dvd 1000 * j \<and> 1000 * j \<le> nat count))"
      by simp
    then show ?thesis by blast
  next
    case (Inr u)
    obtain res2 r2 c2 where fs: "f_section r1 c1 = (res2, r2, c2)"
      by (cases "f_section r1 c1")
    from assms(1) rs Inr fs obtain err2 where res2: "res2 = Inl err2" and eq: "c' = c2"
      by (cases res2) (auto simp: generate_random_employees_def)
    from rs Inr assms(2) obtain new where
      a: "durable c1 = durable c @ new" "length new = nat count"
      using random_section_Inr [of count r c u r1 c1] by auto
    from fs res2 have "durable c2 = durable c1"
      using f_section_Inl [of r1 c1 err2 r2 c2] by simp
    with a eq have "length (durable c') = length (durable c) + nat count" by simp
    then show ?thesis by blast
  qed
qed

lemma generate_never:
  assumes "\<forall>k. \<not> fails c k" and "working c = durable c"
  shows "fst (generate_random_employees count r c) = Inr PyNone"
proof -
  obtain res r1 c1 where rs: "random_section count r c = (res, r1, c1)"
    by (cases "random_section count r c")
  from random_section_never [OF assms, of count r] rs have res: "res = Inr ()" by simp
  from rs res assms have "\<forall>k. \<not> fails c1 k"
    using random_section_Inr [of count r c "()" r1 c1] by simp
  then have ok: "fst (f_section r1 c1) = Inr ()" by (rule f_section_never)
  obtain x r2 c2 where fs: "f_section r1 c1 = (x, r2, c2)"
    by (cases "f_section r1 c1")
  with ok have "x = Inr ()" by simp
  with rs res fs show ?thesis
    by (simp add: generate_random_employees_def)
qed

section \<open>What a load commits, batch by batch\<close>

lemma random_employees_length: "length (fst (random_employees n r)) = n"
proof (induction n arbitrary: r)
  case 0
  then show ?case by simp
next
  case (Suc n)
  obtain e r1 where re: "random_employee r = (e, r1)"
    by (cases "random_employee r")
  obtain es r2 where rs: "random_employees n r1 = (es, r2)"
    by (cases "random_employees n r1")
  from Suc.IH [of r1] rs have "length es = n" by simp
  with re rs show ?case by simp
qed

lemma random_loop_gen_Inr:
  assumes "random_loop n buf r c = (Inr rest, r', c')"
    and "working c = durable c" and "length buf < 1000"
  shows "durable c' @ rest = durable c @ buf @ fst (random_employees n r)
       \<and> r' = snd (random_employees n r)"
  using assms
proof (induction n arbitrary: buf r c)
  case 0
  then show ?case by simp
next
  case (Suc n)
  obtain e r1 where re: "random_employee r = (e, r1)"
    by (cases "random_employee r")
  obtain es r2 where rs: "random_employees n r1 = (es, r2)"
    by (cases "random_employees n r1")
  from re rs have g: "random_employees (Suc n) r = (e # es, r2)" by simp
  show ?case
  proof (cases "length buf = 999")
    case True
    obtain res c1 where ib: "insert_batch (buf @ [e]) c = (res, c1)"
      by (cases "insert_batch (buf @ [e]) c")
    from Suc.prems(1) re True ib obtain u where res: "res = Inr u"
      and rec: "random_loop n [] r1 c1 = (Inr rest, r', c')"
      by (cases res) auto
    from ib res Suc.prems(2) have c1: "durable c1 = durable c @ buf @ [e]"
        "working c1 = durable c1"
      using insert_batch_Inr [of "buf @ [e]" c u c1] by simp_all
    from Suc.IH [OF rec c1(2)] rs c1(1) g show ?thesis by simp
  next
    case False
    with Suc.prems(3) have lt: "length (buf @ [e]) < 1000" by simp
    from Suc.prems(1) re lt have rec: "random_loop n (buf @ [e]) r1 c = (Inr rest, r', c')"
      by simp
    from Suc.IH [OF rec Suc.prems(2) lt] rs g show ?thesis by simp
  qed
qed

lemma random_loop_gen_Inl:
  assumes "random_loop n buf r c = (Inl err, r', c')"
    and "working c = durable c" and "length buf < 1000"
  shows "\<exists>j. Suc j \<le> (length buf + n) div 1000
            \<and> batch_log c' = batch_log c @ replicate (Suc j) 1000
            \<and> durable c' = durable c @ take (1000 * j) (buf @ fst (random_employees n r))"
  using assms
proof (induction n arbitrary: buf r c)
  case 0
  then show ?case by simp
next
  case (Suc n)
  obtain e r1 where re: "random_employee r = (e, r1)"
    by (cases "random_employee r")
  obtain es r2 where rs: "random_employees n r1 = (es, r2)"
    by (cases "random_employees n r1")
  from re rs have g: "fst (random_employees (Suc n) r) = e # es" by simp
  show ?case
  proof (cases "length buf = 999")
    case True
    then have d: "(length buf + Suc n) div 1000 = Suc (n div 1000)" by simp
    obtain res c1 where ib: "insert_batch (buf @ [e]) c = (res, c1)"
      by (cases "insert_batch (buf @ [e]) c")
    show ?thesis
    proof (cases res)
      case (Inl err1)
      with Suc.prems(1) re True ib have "c' = c1" by simp
      with ib Inl True have "durable c' = durable c" "batch_log c' = batch_log c @ [1000]"
        using insert_batch_Inl [of "buf @ [e]" c err1 c1] by simp_all
      then have "Suc 0 \<le> (length buf + Suc n) div 1000
          \<and> batch_log c' = batch_log c @ replicate (Suc 0) 1000
          \<and> durable c' = durable c @ take (1000 * 0) (buf @ fst (random_employees (Suc n) r))"
        using d by simp
      then show ?thesis by blast
    next
      case (Inr u)
      with Suc.prems(1) re True ib have rec: "random_loop n [] r1 c1 = (Inl err, r', c')"
        by simp
      from ib Inr Suc.prems(2) True have c1: "durable c1 = durable c @ buf @ [e]"
        "working c1 = durable c1" "batch_log c1 = batch_log c @ [1000]"
        using insert_batch_Inr [of "buf @ [e]" c u c1] by simp_all
      from Suc.IH [OF rec c1(2)] rs obtain j where
        j: "Suc j \<le> n div 1000" "batch_log c' = batch_log c1 @ replicate (Suc j) 1000"
           "durable c' = durable c1 @ take (1000 * j) es"
        by auto
      have t: "take (1000 * Suc j) (buf @ e # es) = buf @ [e] @ take (1000 * j) es"
        using True by simp
      have "Suc (Suc j) \<le> (length buf + Suc n) div 1000
          \<and> batch_log c' = batch_log c @ replicate (Suc (Suc j)) 1000
          \<and> durable c' = durable c @ take (1000 * Suc j) (buf @ fst (random_employees (Suc n) r))"
        using j c1 d g t by simp
      then show ?thesis by blast
    qed
  next
    case False
    with Suc.prems(3) have lt: "length (buf @ [e]) < 1000" by simp
    from Suc.prems(1) re lt have rec: "random_loop n (buf @ [e]) r1 c = (Inl err, r', c')"
      by simp
    from Suc.IH [OF rec Suc.prems(2) lt] rs g show ?thesis by simp
  qed
qed

lemma batch_plan_sum: "sum_list (batch_plan n) = n"
proof -
  have e: "1000 * (n div 1000) + n mod 1000 = n"
    by (rule mult_div_mod_eq)
  show ?thesis
  proof (cases "n mod 1000 = 0")
    case True
    with e have "1000 * (n div 1000) = n" by linarith
    with True show ?thesis
      by (simp add: batch_plan_def sum_list_replicate mult.commute)
  next
    case False
    with e show ?thesis
      by (simp add: batch_plan_def sum_list_replicate mult.commute)
  qed
qed

lemma batch_plan_take_full:
  assumes "j \<le> n div 1000"
  shows "take j (batch_plan n) = replicate j 1000"
  using assms by (simp add: batch_plan_def min_def)

lemma sum_list_take_le: "sum_list (take m (xs::nat list)) \<le> sum_list xs"
proof -
  have "sum_list xs = sum_list (take m xs) + sum_list (drop m xs)"
    by (metis append_take_drop_id sum_list_append)
  then show ?thesis by simp
qed

lemma random_section_gen_Inr:
  assumes "random_section count r c = (Inr u, r', c')" and "working c = durable c"
  shows "durable c' = durable c @ fst (random_employees (nat count) r)
       \<and> r' = snd (random_employees (nat count) r)
       \<and> batch_log c' = batch_log c @ batch_plan (nat count)
       \<and> working c' = durable c'"
proof -
  obtain res r1 c1 where lp: "random_loop (nat count) [] r c = (res, r1, c1)"
    by (cases "random_loop (nat count) [] r c")
  from assms(1) lp obtain rest where res: "res = Inr rest"
    by (cases res) (auto simp: random_section_def)
  from lp res assms(2) have
    g: "durable c1 @ rest = durable c @ fst (random_employees (nat count) r)"
       "r1 = snd (random_employees (nat count) r)"
    using random_loop_gen_Inr [of "nat count" "[]" r c rest r1 c1] by simp_all
  from lp res assms(2) have w: "working c1 = durable c1"
    using random_loop_Inr [of "nat count" "[]" r c rest r1 c1] by simp
  from random_section_Inr [OF assms] have
    l: "batch_log c' = batch_log c @ batch_plan (nat count)" "working c' = durable c'"
    by (simp_all add: batch_plan_def)
  have r: "r' = r1"
    using assms(1) lp res by (auto simp: random_section_def split: if_splits prod.splits)
  have "durable c' = durable c1 @ rest"
  proof (cases "rest = []")
    case True
    with assms(1) lp res show ?thesis by (simp add: random_section_def)
  next
    case False
    with assms(1) lp res have ib: "insert_batch rest c1 = (Inr u, c')"
      by (auto simp: random_section_def split: prod.splits)
    from insert_batch_Inr [OF ib] w show ?thesis by simp
  qed
  with g l r show ?thesis by simp
qed

lemma random_section_gen_Inl:
  assumes "random_section count r c = (Inl err, r', c')" and "working c = durable c"
  shows "\<exists>m<length (batch_plan (nat count)).
            batch_log c' = batch_log c @ take (Suc m) (batch_plan (nat count))
          \<and> durable c' = durable c @ take (sum_list (take m (batch_plan (nat count))))
                                      (fst (random_employees (nat count) r))"
proof -
  let ?n = "nat count"
  let ?gen = "fst (random_employees ?n r)"
  obtain res r1 c1 where lp: "random_loop ?n [] r c = (res, r1, c1)"
    by (cases "random_loop ?n [] r c")
  show ?thesis
  proof (cases res)
    case (Inl err1)
    with assms(1) lp have "c' = c1" by (simp add: random_section_def)
    with lp Inl assms(2) obtain j where
      j: "Suc j \<le> ?n div 1000" "batch_log c' = batch_log c @ replicate (Suc j) 1000"
         "durable c' = durable c @ take (1000 * j) ?gen"
      using random_loop_gen_Inl [of ?n "[]" r c err1 r1 c1] by auto
    from j(1) have "j < length (batch_plan ?n)"
      by (simp add: batch_plan_def)
    moreover from j(1) have "take (Suc j) (batch_plan ?n) = replicate (Suc j) 1000"
      by (rule batch_plan_take_full)
    moreover from j(1) have "sum_list (take j (batch_plan ?n)) = 1000 * j"
      by (simp add: batch_plan_take_full sum_list_replicate)
    ultimately show ?thesis using j(2,3) by auto
  next
    case (Inr rest)
    with lp assms(2) have
      g: "durable c1 @ rest = durable c @ ?gen"
      using random_loop_gen_Inr [of ?n "[]" r c rest r1 c1] by simp
    from lp Inr assms(2) have
      l: "length rest = ?n mod 1000"
         "batch_log c1 = batch_log c @ replicate (?n div 1000) 1000"
      using random_loop_Inr [of ?n "[]" r c rest r1 c1] by simp_all
    from assms(1) lp Inr have ne: "rest \<noteq> []" and ib: "insert_batch rest c1 = (Inl err, c')"
      by (auto simp: random_section_def split: prod.splits if_splits)
    from ne have "length rest \<noteq> 0" by simp
    with l(1) have nz: "?n mod 1000 \<noteq> 0" by metis
    from insert_batch_Inl [OF ib] l have
      c': "durable c' = durable c1" "batch_log c' = batch_log c @ batch_plan ?n"
      using nz by (simp_all add: batch_plan_def)
    have len: "length (durable c1) + ?n mod 1000 = length (durable c) + ?n"
      using g l(1) random_employees_length [of ?n r]
      by (metis length_append)
    have "1000 * (?n div 1000) + ?n mod 1000 = ?n"
      by (rule mult_div_mod_eq)
    with len have len1: "length (durable c1) = length (durable c) + 1000 * (?n div 1000)"
      by linarith
    from g have "take (length (durable c1)) (durable c1 @ rest)
                  = take (length (durable c1)) (durable c @ ?gen)"
      by simp
    with len1 have d1: "durable c1 = durable c @ take (1000 * (?n div 1000)) ?gen"
      by simp
    have lp': "length (batch_plan ?n) = Suc (?n div 1000)"
      using nz by (simp add: batch_plan_def)
    have "?n div 1000 < length (batch_plan ?n)
        \<and> batch_log c' = batch_log c @ take (Suc (?n div 1000)) (batch_plan ?n)
        \<and> durable c' = durable c @ take (sum_list (take (?n div 1000) (batch_plan ?n))) ?gen"
      using c' d1 lp' by (simp add: batch_plan_take_full sum_list_replicate mult.commute)
    then show ?thesis by blast
  qed
qed

lemma f_section_Inl_log:
  assumes "f_section r c = (Inl err, r', c')"
  shows "batch_log c' = batch_log c @ [100]"
proof -
  from assms(1) have ib: "insert_batch (fst (f_loop 100 [] r)) c = (Inl err, c')"
    by (auto simp: f_section_def split: prod.splits)
  from insert_batch_Inl [OF ib] show ?thesis by (simp add: f_loop_length)
qed

lemma load_sequence_split:
  "load_sequence count r =
     fst (random_employees (nat count) r) @ fst (f_loop 100 [] (snd (random_employees (nat count) r)))"
  by (simp add: load_sequence_def split: prod.splits)

lemma generate_gen_Inr:
  assumes "generate_random_employees count r c = (Inr v, r', c')"
    and "working c = durable c"
  shows "durable c' = durable c @ load_sequence count r
       \<and> batch_log c' = batch_log c @ batch_plan (nat count) @ [100]"
proof -
  obtain res r1 c1 where rs: "random_section count r c = (res, r1, c1)"
    by (cases "random_section count r c")
  from assms(1) rs obtain u where res: "res = Inr u"
    by (cases res) (auto simp: generate_random_employees_def)
  obtain res2 r2 c2 where fs: "f_section r1 c1 = (res2, r2, c2)"
    by (cases "f_section r1 c1")
  from assms(1) rs res fs obtain u2 where res2: "res2 = Inr u2" and eq: "c' = c2"
    by (cases res2) (auto simp: generate_random_employees_def)
  from rs res assms(2) have
    a: "durable c1 = durable c @ fst (random_employees (nat count) r)"
       "r1 = snd (random_employees (nat count) r)"
       "batch_log c1 = batch_log c @ batch_plan (nat count)" "working c1 = durable c1"
    using random_section_gen_Inr [of count r c u r1 c1] by simp_all
  from fs res2 a(4) have b: "durable c2 = durable c1 @ fst (f_loop 100 [] r1)"
    "batch_log c2 = batch_log c1 @ [100]"
    using f_section_Inr [of r1 c1 u2 r2 c2] by simp_all
  from a b eq show ?thesis by (simp add: load_sequence_split)
qed

lemma generate_gen_Inl:
  assumes "generate_random_employees count r c = (Inl err, r', c')"
    and "working c = durable c"
  shows "\<exists>m<length (batch_plan (nat count) @ [100]).
            batch_log c' = batch_log c @ take (Suc m) (batch_plan (nat count) @ [100])
          \<and> durable c' = durable c @
               take (sum_list (take m (batch_plan (nat count) @ [100]))) (load_sequence count r)"
proof -
  let ?bp = "batch_plan (nat count)"
  let ?gen = "fst (random_employees (nat count) r)"
  obtain res r1 c1 where rs: "random_section count r c = (res, r1, c1)"
    by (cases "random_section count r c")
  show ?thesis
  proof (cases res)
    case (Inl err1)
    with assms(1) rs have "c' = c1" by (simp add: generate_random_employees_def)
    with rs Inl assms(2) obtain m where
      m: "m < length ?bp" "batch_log c' = batch_log c @ take (Suc m) ?bp"
         "durable c' = durable c @ take (sum_list (take m ?bp)) ?gen"
      using random_section_gen_Inl [of count r c err1 r1 c1] by auto
    have "sum_list (take m ?bp) \<le> sum_list ?bp" by (rule sum_list_take_le)
    then have le: "sum_list (take m ?bp) \<le> length ?gen"
      by (simp add: batch_plan_sum random_employees_length)
    have "m < length (?bp @ [100])
        \<and> batch_log c' = batch_log c @ take (Suc m) (?bp @ [100])
        \<and> durable c' = durable c @
             take (sum_list (take m (?bp @ [100]))) (load_sequence count r)"
      using m le by (simp add: load_sequence_split)
    then show ?thesis by blast
  next
    case (Inr u)
    obtain res2 r2 c2 where fs: "f_section r1 c1 = (res2, r2, c2)"
      by (cases "f_section r1 c1")
    from assms(1) rs Inr fs obtain err2 where res2: "res2 = Inl err2" and eq: "c' = c2"
      by (cases res2) (auto simp: generate_random_employees_def)
    from rs Inr assms(2) have
      a: "durable c1 = durable c @ ?gen" "batch_log c1 = batch_log c @ ?bp"
      using random_section_gen_Inr [of count r c u r1 c1] by simp_all
    from fs res2 have b: "durable c2 = durable c1" "batch_log c2 = batch_log c1 @ [100]"
      using f_section_Inl [of r1 c1 err2 r2 c2] f_section_Inl_log [of r1 c1 err2 r2 c2]
      by simp_all
    have "length ?bp < length (?bp @ [100])
        \<and> batch_log c' = batch_log c @ take (Suc (length ?bp)) (?bp @ [100])
        \<and> durable c' = durable c @
             take (sum_list (take (length ?bp) (?bp @ [100]))) (load_sequence count r)"
      using a b eq
      by (simp add: load_sequence_split batch_plan_sum random_employees_length)
    then show ?thesis by blast
  qed
qed

lemma load_sequence_length: "length (load_sequence count r) = nat count + 100"
  by (simp add: load_sequence_split random_employees_length f_loop_length)

section \<open>Generated birth dates\<close>

lemma randint_range:
  assumes "a \<le> b"
  shows "a \<le> fst (randint a b r) \<and> fst (randint a b r) \<le> b"
proof -
  from assms have pos: "0 < b - a + 1" by simp
  have "0 \<le> int (r 0) mod (b - a + 1)"
    using pos by (rule pos_mod_sign)
  moreover have "int (r 0) mod (b - a + 1) < b - a + 1"
    using pos by (rule pos_mod_bound)
  ultimately show ?thesis by (simp add: randint_def)
qed

lemma digit_value_digit: "d < 10 \<Longrightarrow> digit_value (digit d) = Some d"
  by (simp add: digit_value_def digit_def less_eq_char_def)

lemma digit_0: "digit 0 = CHR ''0''"
  by code_simp

lemma digits_1: "n < 10 \<Longrightarrow> digits n = [digit n]"
  by (simp add: digits.simps)

lemma digits_2: "10 \<le> n \<Longrightarrow> n < 100 \<Longrightarrow> digits n = [digit (n div 10), digit (n mod 10)]"
  by (subst digits.simps) (simp add: digits_1)

lemma digits_step: "10 \<le> n \<Longrightarrow> digits n = digits (n div 10) @ [digit (n mod 10)]"
  by (subst digits.simps) simp

lemma digits_4:
  assumes "1000 \<le> n" and "n < 10000"
  shows "\<exists>a b c d. digits n = [digit a, digit b, digit c, digit d]
           \<and> a < 10 \<and> b < 10 \<and> c < 10 \<and> d < 10 \<and> a * 1000 + b * 100 + c * 10 + d = n"
proof -
  define q1 where "q1 = n div 10"
  define d0 where "d0 = n mod 10"
  define q2 where "q2 = q1 div 10"
  define d1 where "d1 = q1 mod 10"
  define q3 where "q3 = q2 div 10"
  define d2 where "d2 = q2 mod 10"
  have e0: "n = 10 * q1 + d0" and b0: "d0 < 10"
    by (simp_all add: q1_def d0_def)
  have e1: "q1 = 10 * q2 + d1" and b1: "d1 < 10"
    by (simp_all add: q2_def d1_def)
  have e2: "q2 = 10 * q3 + d2" and b2: "d2 < 10"
    by (simp_all add: q3_def d2_def)
  from assms e0 b0 have r1: "100 \<le> q1" "q1 < 1000" by linarith+
  from r1 e1 b1 have r2: "10 \<le> q2" "q2 < 100" by linarith+
  from r2 e2 b2 have r3: "q3 < 10" by linarith
  have "digits n = digits q1 @ [digit d0]"
    using assms by (simp add: digits_step q1_def d0_def)
  also have "digits q1 = digits q2 @ [digit d1]"
    using r1 by (simp add: digits_step q2_def d1_def)
  also have "digits q2 = digits q3 @ [digit d2]"
    using r2 by (simp add: digits_step q3_def d2_def)
  also have "digits q3 = [digit q3]"
    using r3 by (rule digits_1)
  finally have s: "digits n = [digit q3, digit d2, digit d1, digit d0]" by simp
  from e0 e1 e2 have v: "q3 * 1000 + d2 * 100 + d1 * 10 + d0 = n" by linarith
  from s r3 b2 b1 b0 v show ?thesis by blast
qed

lemma number_2:
  "a < 10 \<Longrightarrow> b < 10 \<Longrightarrow> number [digit a, digit b] = Some (a * 10 + b)"
  by (simp add: digit_value_digit)

lemma number_4:
  "a < 10 \<Longrightarrow> b < 10 \<Longrightarrow> c < 10 \<Longrightarrow> d < 10 \<Longrightarrow>
   number [digit a, digit b, digit c, digit d] = Some (a * 1000 + b * 100 + c * 10 + d)"
  by (simp add: digit_value_digit)

lemma str_int_4:
  assumes "1000 \<le> y" and "y \<le> 9999"
  shows "\<exists>a b c d. str_int y = [digit a, digit b, digit c, digit d]
           \<and> a < 10 \<and> b < 10 \<and> c < 10 \<and> d < 10 \<and> a * 1000 + b * 100 + c * 10 + d = nat y"
proof -
  from assms have n: "1000 \<le> nat y" "nat y < 10000" by simp_all
  from assms have "str_int y = digits (nat y)" by (simp add: str_int_def)
  with digits_4 [OF n] show ?thesis by simp
qed

lemma fmt_02d_2:
  assumes "0 \<le> i" and "i \<le> 99"
  shows "fmt_02d i = [digit (nat i div 10), digit (nat i mod 10)]"
proof (cases "i < 10")
  case True
  with assms have "str_int i = [digit (nat i)]"
    by (simp add: str_int_def digits_1)
  with True assms show ?thesis
    by (simp add: fmt_02d_def digit_0)
next
  case False
  with assms have "str_int i = [digit (nat i div 10), digit (nat i mod 10)]"
    by (simp add: str_int_def digits_2)
  then show ?thesis
    by (simp add: fmt_02d_def)
qed

lemma days_in_month_28: "28 \<le> days_in_month y m"
  by (simp add: days_in_month_def)

lemma iso_date_format:
  assumes "1000 \<le> y" "y \<le> 9999" "1 \<le> m" "m \<le> 12" "1 \<le> d" "d \<le> 28"
  shows "iso_date (str_int y @ ''-'' @ fmt_02d m @ ''-'' @ fmt_02d d) = Some (nat y, nat m, nat d)"
proof -
  from str_int_4 [OF assms(1,2)] obtain a b c e where
    y: "str_int y = [digit a, digit b, digit c, digit e]"
       "a < 10" "b < 10" "c < 10" "e < 10" "a * 1000 + b * 100 + c * 10 + e = nat y"
    by blast
  have m: "fmt_02d m = [digit (nat m div 10), digit (nat m mod 10)]"
    using assms by (intro fmt_02d_2) simp_all
  have d: "fmt_02d d = [digit (nat d div 10), digit (nat d mod 10)]"
    using assms by (intro fmt_02d_2) simp_all
  have ny: "number [digit a, digit b, digit c, digit e] = Some (nat y)"
    using number_4 [OF y(2-5)] y(6) by simp
  have nm: "number [digit (nat m div 10), digit (nat m mod 10)] = Some (nat m)"
    using assms by (subst number_2) simp_all
  have nd: "number [digit (nat d div 10), digit (nat d mod 10)] = Some (nat d)"
    using assms by (subst number_2) simp_all
  have dm: "nat d \<le> days_in_month (nat y) (nat m)"
    using days_in_month_28 [of "nat y" "nat m"] assms by linarith
  have bm: "1 \<le> nat m \<and> nat m \<le> 12" and bd: "1 \<le> nat d"
    using assms by arith+
  show ?thesis
    using bm bd dm by (simp add: iso_date_def y(1) m d ny nm nd del: number.simps)
qed

lemma random_birth_date_iso: "birth_date_in_range (fst (random_birth_date r))"
proof -
  obtain y r1 where a: "randint 1950 2005 r = (y, r1)" by (cases "randint 1950 2005 r")
  obtain m r2 where b: "randint 1 12 r1 = (m, r2)" by (cases "randint 1 12 r1")
  obtain d r3 where c: "randint 1 28 r2 = (d, r3)" by (cases "randint 1 28 r2")
  have ry: "1950 \<le> y \<and> y \<le> 2005" using randint_range [of 1950 2005 r] a by simp
  have rm: "1 \<le> m \<and> m \<le> 12" using randint_range [of 1 12 r1] b by simp
  have rd: "1 \<le> d \<and> d \<le> 28" using randint_range [of 1 28 r2] c by simp
  have "iso_date (str_int y @ ''-'' @ fmt_02d m @ ''-'' @ fmt_02d d) = Some (nat y, nat m, nat d)"
    using ry rm rd by (intro iso_date_format) simp_all
  moreover have "1950 \<le> nat y \<and> nat y \<le> 2005" using ry by arith
  moreover have "1 \<le> nat m \<and> nat m \<le> 12" using rm by arith
  moreover have "1 \<le> nat d \<and> nat d \<le> 28" using rd by arith
  ultimately show ?thesis using a b c
    by (simp add: random_birth_date_def birth_date_in_range_def)
qed

lemma random_employee_birth_date: "birth_date_in_range (birth_date (fst (random_employee r)))"
  using random_birth_date_iso
  by (simp add: random_employee_def Let_def split: prod.splits) (metis fst_conv)

lemma f_employee_birth_date: "birth_date_in_range (birth_date (fst (f_employee r)))"
  using random_birth_date_iso
  by (simp add: f_employee_def Let_def split: prod.splits) (metis fst_conv)

lemma f_employee_male_F:
  "gender (fst (f_employee r)) = ''Male'' \<and> take 1 (full_name (fst (f_employee r))) = ''F''"
  by (simp add: f_employee_def Let_def split: prod.splits)

section \<open>Evaluation on the concrete inputs\<close>

lemma zero_rng_tail: "(\<lambda>i. 0) = zero_rng"
  by (rule ext) (simp add: zero_rng_def)

lemma str_int_1950: "str_int 1950 = ''1950''"
  by code_simp

lemma fmt_02d_1: "fmt_02d 1 = ''01''"
  by code_simp

lemma random_birth_date_zero: "random_birth_date zero_rng = (''1950-01-01'', zero_rng)"
proof -
  have z: "\<And>k. zero_rng k = 0" by (simp add: zero_rng_def)
  show ?thesis
    by (simp add: random_birth_date_def randint_def z zero_rng_tail str_int_1950 fmt_02d_1)
qed

lemma random_employee_zero: "random_employee zero_rng = (drawn_zero, zero_rng)"
proof -
  have z: "\<And>k. zero_rng k = 0" by (simp add: zero_rng_def)
  show ?thesis
    by (simp add: random_employee_def random_choice_def z zero_rng_tail
        random_birth_date_zero first_names_male_def middle_names_def last_names_def
        drawn_zero_def)
qed

lemma f_employee_zero: "f_employee zero_rng = (fisher, zero_rng)"
proof -
  have z: "\<And>k. zero_rng k = 0" by (simp add: zero_rng_def)
  show ?thesis
    by (simp add: f_employee_def random_choice_def z zero_rng_tail
        random_birth_date_zero first_names_male_def middle_names_def fisher_def)
qed

lemma table_of_clean: "working (table_of rows sch) = durable (table_of rows sch)"
  by (simp add: table_of_def)

lemma table_of_no_failure: "\<forall>k. \<not> fails (table_of rows no_failure) k"
  by (simp add: table_of_def no_failure_def)

section \<open>The generators\<close>

text \<open>
  Claim C6. The second loop, run for \<open>n\<close> iterations from an empty list, builds exactly
  \<open>n\<close> records, each with gender \<^verbatim>\<open>Male\<close> and a full name whose first letter is \<^verbatim>\<open>F\<close>.
  The program runs it with \<open>n = 100\<close>, and the letter is the literal of line 130.
\<close>

theorem f_loop_male_F:
  "length (fst (f_loop n [] r)) = n \<and>
   (\<forall>e\<in>set (fst (f_loop n [] r)). gender e = ''Male'' \<and> take 1 (full_name e) = ''F'')"
proof -
  from f_loop_appends [of n "[]" r] obtain new where
    n: "fst (f_loop n [] r) = new" "length new = n"
       "\<forall>e\<in>set new. \<exists>r0. e = fst (f_employee r0)"
    by auto
  from n(3) have "\<forall>e\<in>set new. gender e = ''Male'' \<and> take 1 (full_name e) = ''F''"
    using f_employee_male_F by metis
  with n show ?thesis by simp
qed

text \<open>Two iterations on the constant random source give the record \<open>fisher\<close> twice.\<close>

theorem f_loop_male_F_witness:
  "fst (f_loop 2 [] zero_rng) = [fisher, fisher] \<and> length (fst (f_loop 2 [] zero_rng)) = 2 \<and>
   fisher \<in> set (fst (f_loop 2 [] zero_rng)) \<and>
   gender fisher = ''Male'' \<and> take 1 (full_name fisher) = ''F''"
proof -
  have run: "f_loop 2 [] zero_rng = ([fisher, fisher], zero_rng)"
    by (simp add: numeral_2_eq_2 f_employee_zero)
  show ?thesis
    using f_loop_male_F [of 2 zero_rng] by (simp add: run)
qed

text \<open>
  Claim C5. On a connection with no open transaction, the first loop and its final flush
  raise nothing when no storage operation fails; and whenever they raise nothing, the
  committed table has grown by exactly \<open>count\<close> records (none for a negative \<open>count\<close>),
  each with a birth date that reads as an ISO 8601 calendar date with the year in
  1950..2005, the month in 1..12 and the day in 1..28.
\<close>

theorem random_section_dated:
  assumes "working c = durable c"
  shows "((\<forall>k. \<not> fails c k) \<longrightarrow> fst (random_section count r c) = Inr ()) \<and>
         (fst (random_section count r c) = Inr () \<longrightarrow>
            (\<exists>new. durable (snd (snd (random_section count r c))) = durable c @ new
                \<and> length new = nat count
                \<and> (\<forall>e\<in>set new. birth_date_in_range (birth_date e))))"
proof (intro conjI impI)
  assume "\<forall>k. \<not> fails c k"
  then show "fst (random_section count r c) = Inr ()"
    using assms by (rule random_section_never)
next
  assume ok: "fst (random_section count r c) = Inr ()"
  obtain r' c' where rs: "random_section count r c = (Inr (), r', c')"
    using ok by (cases "random_section count r c") auto
  from random_section_Inr [OF rs assms] obtain new where
    n: "durable c' = durable c @ new" "length new = nat count"
       "\<forall>e\<in>set new. \<exists>r0. e = fst (random_employee r0)"
    by auto
  from n(3) have "\<forall>e\<in>set new. birth_date_in_range (birth_date e)"
    using random_employee_birth_date by metis
  with n rs show "\<exists>new. durable (snd (snd (random_section count r c))) = durable c @ new
      \<and> length new = nat count \<and> (\<forall>e\<in>set new. birth_date_in_range (birth_date e))"
    by auto
qed

text \<open>Two records on an empty table, from the constant random source.\<close>

lemma random_section_two:
  "random_section 2 zero_rng (table_of [] no_failure) =
     (Inr (), zero_rng,
      \<lparr>durable = [drawn_zero, drawn_zero], working = [drawn_zero, drawn_zero],
       indexed = False, fails = no_failure, stmts = 3, bare_row = first_row, batch_log = [2]\<rparr>)"
  by (simp add: random_section_def numeral_2_eq_2 random_employee_zero insert_batch_def
      batch_save_def commit_def table_of_def no_failure_def)

lemma iso_date_1950: "iso_date ''1950-01-01'' = Some (1950, 1, 1)"
  by code_simp

theorem random_section_dated_witness:
  "working (table_of [] no_failure) = durable (table_of [] no_failure) \<and>
   fst (random_section 2 zero_rng (table_of [] no_failure)) = Inr () \<and>
   durable (snd (snd (random_section 2 zero_rng (table_of [] no_failure))))
     = [drawn_zero, drawn_zero] \<and>
   drawn_zero \<in> set [drawn_zero, drawn_zero] \<and>
   birth_date_in_range (birth_date drawn_zero) \<and>
   iso_date (birth_date drawn_zero) = Some (1950, 1, 1)"
proof -
  have h: "working (table_of [] no_failure) = durable (table_of [] no_failure)"
    by (rule table_of_clean)
  have i: "iso_date (birth_date drawn_zero) = Some (1950, 1, 1)"
    by (simp add: drawn_zero_def iso_date_1950)
  have b: "durable (table_of [] no_failure) = []"
    by (simp add: table_of_def)
  show ?thesis
    using h random_section_dated [OF h, of 2 zero_rng]
    by (simp add: random_section_two i b)
qed

section \<open>Batching\<close>

text \<open>
  Claim C7. When no storage operation fails, the first loop and its final flush call
  \<^verbatim>\<open>batch_save\<close> once per full buffer of exactly 1000 records and once more, at the end,
  for the shorter rest if there is one; the committed table grows by \<open>count\<close> rows. For
  \<open>count = 1000\<close> on an empty table this is one call with 1000 rows and a table of 1000
  rows.
\<close>

theorem random_section_batches:
  assumes "working c = durable c" and "\<forall>k. \<not> fails c k"
  shows "fst (random_section count r c) = Inr () \<and>
         batch_log (snd (snd (random_section count r c))) =
           batch_log c @ replicate (nat count div 1000) 1000
             @ (if nat count mod 1000 = 0 then [] else [nat count mod 1000]) \<and>
         length (durable (snd (snd (random_section count r c)))) = length (durable c) + nat count"
proof -
  have ok: "fst (random_section count r c) = Inr ()"
    using assms(2,1) by (rule random_section_never)
  obtain r' c' where rs: "random_section count r c = (Inr (), r', c')"
    using ok by (cases "random_section count r c") auto
  from random_section_Inr [OF rs assms(1)] rs ok show ?thesis by auto
qed

theorem random_section_batches_witness:
  "working (table_of [] no_failure) = durable (table_of [] no_failure) \<and>
   (\<forall>k. \<not> fails (table_of [] no_failure) k) \<and>
   fst (random_section 1000 zero_rng (table_of [] no_failure)) = Inr () \<and>
   batch_log (snd (snd (random_section 1000 zero_rng (table_of [] no_failure)))) = [1000] \<and>
   length (durable (snd (snd (random_section 1000 zero_rng (table_of [] no_failure))))) = 1000"
proof -
  have h: "working (table_of [] no_failure) = durable (table_of [] no_failure)"
    by (rule table_of_clean)
  have n: "\<forall>k. \<not> fails (table_of [] no_failure) k"
    by (rule table_of_no_failure)
  have b: "batch_log (table_of [] no_failure) = []" "durable (table_of [] no_failure) = []"
    by (simp_all add: table_of_def)
  show ?thesis
    using h n random_section_batches [OF h n, of 1000 zero_rng]
    by (simp add: b)
qed

section \<open>What the load returns\<close>

text \<open>
  Claim C2, as amended. \<^verbatim>\<open>generate_random_employees\<close> returns \<^verbatim>\<open>None\<close>, not a count. On
  a connection with no open transaction: when no storage operation fails it raises
  nothing. When it raises nothing, the committed table has grown by the whole load
  sequence, \<open>count + 100\<close> rows, handed over in the batches of the plan: batches of 1000,
  the shorter rest, the hundred targeted records. When a batch raises, the calls of
  \<^verbatim>\<open>batch_save\<close> made are the first \<open>m + 1\<close> of the plan, the failed one being the last:
  no batch is tried after it; and the committed table has grown by exactly the records
  of the \<open>m\<close> batches before it, the first records of the load sequence.
\<close>

theorem generate_returns_none:
  assumes "working c = durable c"
  shows "((\<forall>k. \<not> fails c k) \<longrightarrow> fst (generate_random_employees count r c) = Inr PyNone) \<and>
         (case generate_random_employees count r c of
            (Inr v, r', c') \<Rightarrow>
               v = PyNone
               \<and> durable c' = durable c @ load_sequence count r
               \<and> length (durable c') = length (durable c) + nat count + 100
               \<and> batch_log c' = batch_log c @ batch_plan (nat count) @ [100]
          | (Inl err, r', c') \<Rightarrow>
               (\<exists>m<length (batch_plan (nat count) @ [100]).
                   batch_log c' = batch_log c @ take (Suc m) (batch_plan (nat count) @ [100])
                 \<and> durable c' = durable c @
                      take (sum_list (take m (batch_plan (nat count) @ [100])))
                        (load_sequence count r)))"
proof -
  obtain res r' c' where g: "generate_random_employees count r c = (res, r', c')"
    by (cases "generate_random_employees count r c")
  have "case (res, r', c') of
            (Inr v, r', c') \<Rightarrow>
               v = PyNone
               \<and> durable c' = durable c @ load_sequence count r
               \<and> length (durable c') = length (durable c) + nat count + 100
               \<and> batch_log c' = batch_log c @ batch_plan (nat count) @ [100]
          | (Inl err, r', c') \<Rightarrow>
               (\<exists>m<length (batch_plan (nat count) @ [100]).
                   batch_log c' = batch_log c @ take (Suc m) (batch_plan (nat count) @ [100])
                 \<and> durable c' = durable c @
                      take (sum_list (take m (batch_plan (nat count) @ [100])))
                        (load_sequence count r))"
  proof (cases res)
    case (Inl err)
    with g generate_gen_Inl [of count r c err r' c'] assms show ?thesis by simp
  next
    case (Inr v)
    with g generate_Inr [of count r c v r' c'] generate_gen_Inr [of count r c v r' c'] assms
    show ?thesis by simp
  qed
  with g show ?thesis
    using generate_never [OF _ assms, of count r] by simp
qed

text \<open>A load of three records on an empty table, no failure: two calls, 103 rows.\<close>

theorem generate_returns_none_witness:
  "working (table_of [] no_failure) = durable (table_of [] no_failure) \<and>
   (\<forall>k. \<not> fails (table_of [] no_failure) k) \<and>
   fst (generate_random_employees 3 zero_rng (table_of [] no_failure)) = Inr PyNone \<and>
   durable (snd (snd (generate_random_employees 3 zero_rng (table_of [] no_failure))))
     = load_sequence 3 zero_rng \<and>
   length (durable (snd (snd (generate_random_employees 3 zero_rng (table_of [] no_failure)))))
     = 103 \<and>
   batch_log (snd (snd (generate_random_employees 3 zero_rng (table_of [] no_failure))))
     = [3, 100]"
proof -
  have h: "working (table_of [] no_failure) = durable (table_of [] no_failure)"
    by (rule table_of_clean)
  have n: "\<forall>k. \<not> fails (table_of [] no_failure) k"
    by (rule table_of_no_failure)
  have b: "durable (table_of [] no_failure) = []" "batch_log (table_of [] no_failure) = []"
    by (simp_all add: table_of_def)
  have p: "batch_plan 3 = [3]"
    by (simp add: batch_plan_def)
  obtain res r' c' where g:
    "generate_random_employees 3 zero_rng (table_of [] no_failure) = (res, r', c')"
    by (cases "generate_random_employees 3 zero_rng (table_of [] no_failure)")
  show ?thesis
    using h n generate_returns_none [OF h, of 3 zero_rng] g
    by (cases res) (simp_all add: b p load_sequence_length)
qed

text \<open>
  Claim C2 as stated fails: a load of three records on an empty table succeeds, commits
  103 rows, and the value returned is \<^verbatim>\<open>None\<close>, neither 3 nor 103.
\<close>

theorem load_returns_count_counterexample:
  "fst (generate_random_employees 3 zero_rng (table_of [] no_failure)) = Inr PyNone \<and>
   fst (generate_random_employees 3 zero_rng (table_of [] no_failure)) \<noteq> Inr (PyInt 3) \<and>
   fst (generate_random_employees 3 zero_rng (table_of [] no_failure)) \<noteq> Inr (PyInt 103) \<and>
   length (durable (snd (snd (generate_random_employees 3 zero_rng (table_of [] no_failure)))))
     = 103"
proof -
  have ok: "fst (generate_random_employees 3 zero_rng (table_of [] no_failure)) = Inr PyNone"
    using table_of_no_failure table_of_clean by (rule generate_never)
  obtain r' c' where g:
    "generate_random_employees 3 zero_rng (table_of [] no_failure) = (Inr PyNone, r', c')"
    using ok by (cases "generate_random_employees 3 zero_rng (table_of [] no_failure)") auto
  from generate_Inr [OF g table_of_clean] have
    "length (durable c') = 103" by (simp add: table_of_def)
  with g show ?thesis by simp
qed

text \<open>
  A load of one record whose first insert raises: the batch of that record is the only
  call made, the targeted records are never handed over, and nothing is committed.
\<close>

lemma generate_stops_at_failed_batch:
  "fst (generate_random_employees 1 zero_rng (table_of [] (fail_at 0))) = Inl DatabaseError \<and>
   batch_log (snd (snd (generate_random_employees 1 zero_rng (table_of [] (fail_at 0))))) = [1] \<and>
   durable (snd (snd (generate_random_employees 1 zero_rng (table_of [] (fail_at 0))))) = []"
  by (simp add: generate_random_employees_def random_section_def random_employee_zero
      insert_batch_def batch_save_def table_of_def fail_at_def)

section \<open>The listing\<close>

lemma name_date_group_output: "name_date (group_output c k) = k"
  by (simp add: group_output_def name_date_def Let_def)

lemma group_rows_nonempty:
  assumes "k \<in> name_date ` set (working c)"
  shows "group_rows c k \<noteq> []"
proof -
  from assms obtain e where "e \<in> set (working c)" "name_date e = k" by auto
  then have "e \<in> set (group_rows c k)" by (simp add: group_rows_def)
  then show ?thesis by auto
qed

lemma group_output_gender:
  assumes "k \<in> name_date ` set (working c)"
  shows "\<exists>e\<in>set (group_rows c k). gender (group_output c k) = gender e"
proof -
  let ?grp = "group_rows c k"
  from group_rows_nonempty [OF assms] have "bare_row c ?grp mod length ?grp < length ?grp"
    by simp
  then have "?grp ! (bare_row c ?grp mod length ?grp) \<in> set ?grp"
    by (rule nth_mem)
  then show ?thesis
    by (auto simp: group_output_def Let_def)
qed

lemma select_distinct_set:
  "set (select_distinct c) = group_output c ` name_date ` set (working c)"
  by (simp add: select_distinct_def)

lemma select_distinct_keys:
  "name_date ` set (select_distinct c) = name_date ` set (working c)"
  by (simp add: select_distinct_set image_image name_date_group_output)

lemma select_distinct_distinct: "distinct (map name_date (select_distinct c))"
proof -
  let ?outs = "remdups (map (group_output c) (remdups (map name_date (working c))))"
  have inj: "inj_on name_date (set ?outs)"
    by (rule inj_onI) (auto simp: name_date_group_output)
  have "distinct (map name_date ?outs)"
    using inj by (simp add: distinct_map)
  then have "distinct ?outs \<and> inj_on name_date (set ?outs)"
    by (simp add: distinct_map)
  then have "distinct (sort_key name_date ?outs) \<and> inj_on name_date (set (sort_key name_date ?outs))"
    by simp
  then show ?thesis
    unfolding select_distinct_def distinct_map by simp
qed

lemma select_distinct_sorted_pairs: "sorted (map name_date (select_distinct c))"
  by (simp add: select_distinct_def)

lemma sorted_first_components:
  "sorted (map name_date es) \<Longrightarrow> sorted (map full_name es)"
proof (induction es)
  case Nil
  then show ?case by simp
next
  case (Cons e es)
  from Cons.prems have a: "\<forall>x\<in>set es. name_date e \<le> name_date x"
    and b: "sorted (map name_date es)"
    by simp_all
  from a have "\<forall>x\<in>set es. full_name e \<le> full_name x"
    by (auto simp: name_date_def less_eq_prod_def)
  moreover from b have "sorted (map full_name es)"
    by (rule Cons.IH)
  ultimately show ?case by simp
qed

lemma select_distinct_sorted: "sorted (map full_name (select_distinct c))"
  using select_distinct_sorted_pairs by (rule sorted_first_components)

lemma select_distinct_rows:
  assumes "row \<in> set (select_distinct c)"
  shows "\<exists>e\<in>set (working c). name_date e = name_date row \<and> gender e = gender row"
proof -
  from assms obtain k where k: "k \<in> name_date ` set (working c)" "row = group_output c k"
    by (auto simp: select_distinct_set)
  from group_output_gender [OF k(1)] obtain e where
    "e \<in> set (group_rows c k)" "gender (group_output c k) = gender e"
    by blast
  with k show ?thesis
    by (auto simp: group_rows_def name_date_group_output)
qed

lemma filter_key_single:
  assumes "distinct (map f xs)" and "x \<in> set xs"
  shows "filter (\<lambda>y. f y = f x) xs = [x]"
  using assms
proof (induction xs)
  case Nil
  then show ?case by simp
next
  case (Cons a xs)
  show ?case
  proof (cases "a = x")
    case True
    with Cons.prems(1) have "f x \<notin> f ` set xs" by simp
    then have "\<forall>y\<in>set xs. f y \<noteq> f x" by (metis image_eqI)
    then have "filter (\<lambda>y. f y = f x) xs = []" by (simp add: filter_empty_conv)
    with True show ?thesis by simp
  next
    case False
    with Cons.prems have x: "x \<in> set xs" by simp
    with Cons.prems(1) have "f a \<noteq> f x" by auto
    with Cons.IH [OF _ x] Cons.prems(1) show ?thesis by simp
  qed
qed

text \<open>
  Claim C8. When the statement does not raise, the rows fetched by the listing have
  pairwise different pairs (full_name, birth_date), are in ascending order of full_name
  (rows with the same name in ascending order of birth_date), show exactly the pairs
  that occur in the table, each with the gender of a table row with that pair; the
  table, as the connection sees it and as committed, is left as it was, duplicates
  included.
\<close>

theorem list_distinct_dedup_sorted:
  assumes "\<not> fails c (stmts c)"
  shows "fst (list_distinct c) = Inr (select_distinct c) \<and>
         distinct (map name_date (select_distinct c)) \<and>
         sorted (map full_name (select_distinct c)) \<and>
         sorted (map name_date (select_distinct c)) \<and>
         name_date ` set (select_distinct c) = name_date ` set (working c) \<and>
         (\<forall>row\<in>set (select_distinct c).
             \<exists>e\<in>set (working c). name_date e = name_date row \<and> gender e = gender row) \<and>
         working (snd (list_distinct c)) = working c \<and>
         durable (snd (list_distinct c)) = durable c"
  using assms select_distinct_rows [of _ c]
  by (simp add: list_distinct_def select_distinct_distinct select_distinct_sorted
      select_distinct_sorted_pairs select_distinct_keys)

text \<open>
  A table of five rows: two of them equal, a third differing from them in gender only,
  a fourth with the same name and an earlier birth date, which the listing gives first.
\<close>

lemma select_distinct_sample:
  "select_distinct (table_of [petrova, ivanov, ivanova, ivanov_elder, ivanov] no_failure)
     = [ivanov_elder, ivanov, petrova]"
  by (simp add: select_distinct_def group_output_def group_rows_def name_date_def table_of_def
      first_row_def ivanov_def ivanova_def ivanov_elder_def petrova_def less_eq_prod_def)

theorem list_distinct_dedup_sorted_witness:
  "\<not> fails (table_of [petrova, ivanov, ivanova, ivanov_elder, ivanov] no_failure)
       (stmts (table_of [petrova, ivanov, ivanova, ivanov_elder, ivanov] no_failure)) \<and>
   fst (list_distinct (table_of [petrova, ivanov, ivanova, ivanov_elder, ivanov] no_failure))
     = Inr [ivanov_elder, ivanov, petrova] \<and>
   ivanov \<in> set [ivanov_elder, ivanov, petrova] \<and>
   working (snd (list_distinct (table_of [petrova, ivanov, ivanova, ivanov_elder, ivanov] no_failure)))
     = [petrova, ivanov, ivanova, ivanov_elder, ivanov] \<and>
   durable (snd (list_distinct (table_of [petrova, ivanov, ivanova, ivanov_elder, ivanov] no_failure)))
     = [petrova, ivanov, ivanova, ivanov_elder, ivanov]"
proof -
  let ?c = "table_of [petrova, ivanov, ivanova, ivanov_elder, ivanov] no_failure"
  have h: "\<not> fails ?c (stmts ?c)"
    by (simp add: table_of_def no_failure_def)
  have t: "working ?c = [petrova, ivanov, ivanova, ivanov_elder, ivanov]"
      "durable ?c = [petrova, ivanov, ivanova, ivanov_elder, ivanov]"
    by (simp_all add: table_of_def)
  show ?thesis
    using h list_distinct_dedup_sorted [OF h]
    by (simp add: select_distinct_sample t)
qed

text \<open>
  Claim C10. When the table holds two rows with the same (full_name, birth_date) and
  different genders, the listing has exactly one row for that pair, and its gender is
  the gender of one of the table's rows with that pair: which one is SQLite's choice
  (\<open>bare_row\<close>), not fixed by the statement.
\<close>

theorem list_distinct_one_row_per_pair:
  assumes "\<not> fails c (stmts c)"
    and "e1 \<in> set (working c)" and "e2 \<in> set (working c)"
    and "name_date e1 = name_date e2" and "gender e1 \<noteq> gender e2"
  shows "fst (list_distinct c) = Inr (select_distinct c) \<and>
         (\<exists>row. filter (\<lambda>x. name_date x = name_date e1) (select_distinct c) = [row]
            \<and> (\<exists>e\<in>set (working c). name_date e = name_date e1 \<and> gender row = gender e))"
proof -
  from assms(2) have "name_date e1 \<in> name_date ` set (select_distinct c)"
    by (simp add: select_distinct_keys)
  then obtain row where row: "row \<in> set (select_distinct c)" "name_date row = name_date e1"
    by auto
  have "filter (\<lambda>x. name_date x = name_date row) (select_distinct c) = [row]"
    using select_distinct_distinct row(1) by (rule filter_key_single)
  with row(2) have f: "filter (\<lambda>x. name_date x = name_date e1) (select_distinct c) = [row]"
    by simp
  from select_distinct_rows [OF row(1)] row(2)
  have "\<exists>e\<in>set (working c). name_date e = name_date e1 \<and> gender row = gender e"
    by auto
  with f assms(1) show ?thesis
    by (auto simp: list_distinct_def)
qed

text \<open>
  The same table listed under two choices of the row: the first of the group gives
  \<^verbatim>\<open>Male\<close>, the last gives \<^verbatim>\<open>Female\<close>; one row for the pair in both.
\<close>

lemma select_distinct_last:
  "select_distinct ((table_of [petrova, ivanov, ivanova] no_failure)\<lparr>bare_row := last_row\<rparr>)
     = [ivanova, petrova]"
  by (simp add: select_distinct_def group_output_def group_rows_def name_date_def table_of_def
      last_row_def ivanov_def ivanova_def petrova_def less_eq_prod_def)

lemma select_distinct_first:
  "select_distinct (table_of [petrova, ivanov, ivanova] no_failure) = [ivanov, petrova]"
  by (simp add: select_distinct_def group_output_def group_rows_def name_date_def table_of_def
      first_row_def ivanov_def ivanova_def petrova_def less_eq_prod_def)

theorem list_distinct_one_row_per_pair_witness:
  "\<not> fails (table_of [petrova, ivanov, ivanova] no_failure)
       (stmts (table_of [petrova, ivanov, ivanova] no_failure)) \<and>
   ivanov \<in> set (working (table_of [petrova, ivanov, ivanova] no_failure)) \<and>
   ivanova \<in> set (working (table_of [petrova, ivanov, ivanova] no_failure)) \<and>
   name_date ivanov = name_date ivanova \<and> gender ivanov \<noteq> gender ivanova \<and>
   fst (list_distinct (table_of [petrova, ivanov, ivanova] no_failure)) = Inr [ivanov, petrova] \<and>
   filter (\<lambda>x. name_date x = name_date ivanov) [ivanov, petrova] = [ivanov] \<and>
   fst (list_distinct ((table_of [petrova, ivanov, ivanova] no_failure)\<lparr>bare_row := last_row\<rparr>))
     = Inr [ivanova, petrova]"
proof -
  let ?c = "table_of [petrova, ivanov, ivanova] no_failure"
  have h: "\<not> fails ?c (stmts ?c)"
    by (simp add: table_of_def no_failure_def)
  have w: "working ?c = [petrova, ivanov, ivanova]"
    by (simp add: table_of_def)
  have m1: "ivanov \<in> set (working ?c)" and m2: "ivanova \<in> set (working ?c)"
    by (simp_all add: w)
  have k: "name_date ivanov = name_date ivanova"
    by (simp add: name_date_def ivanov_def ivanova_def)
  have g: "gender ivanov \<noteq> gender ivanova"
    by (simp add: ivanov_def ivanova_def)
  have p: "name_date petrova \<noteq> name_date ivanov"
    by (simp add: name_date_def ivanov_def petrova_def)
  have l: "fst (list_distinct (?c\<lparr>bare_row := last_row\<rparr>)) = Inr [ivanova, petrova]"
    by (simp add: list_distinct_def select_distinct_last) (simp add: table_of_def no_failure_def)
  show ?thesis
    using h m1 m2 k g list_distinct_one_row_per_pair [OF h m1 m2 k g]
    by (simp add: select_distinct_first p l)
qed

section \<open>The filter query, its timing and the comparison\<close>

lemma select_male_f_set:
  "working c' = working c \<Longrightarrow> set (select_male_f c') = set (select_male_f c)"
  by (simp add: select_male_f_def Let_def)

lemma query_Inr:
  assumes "query_male_f_surnames p c = (Inr (rows, t), p', c')"
  shows "rows = select_male_f c \<and> t = time_time p (Suc (reads p)) - time_time p (reads p)
       \<and> reads p' = Suc (Suc (reads p)) \<and> time_time p' = time_time p
       \<and> working c' = working c \<and> stmts c' = Suc (stmts c)"
  using assms
  by (auto simp: query_male_f_surnames_def Let_def split: if_splits sum.splits)

lemma optimize_Inr:
  assumes "optimize_database c = (Inr u, c')"
  shows "working c' = working c"
  using assms
  by (auto simp: optimize_database_def commit_def split: if_splits)

lemma mode_6_runs_Inr:
  assumes "mode_6_runs p c = (Inr ((rb, tb), (ra, ta)), p', c')"
  shows "rb = select_male_f c \<and> set ra = set rb
       \<and> tb = time_time p (Suc (reads p)) - time_time p (reads p)
       \<and> ta = time_time p (Suc (Suc (Suc (reads p)))) - time_time p (Suc (Suc (reads p)))"
proof -
  obtain x1 p1 c1 where q1: "query_male_f_surnames p c = (x1, p1, c1)"
    by (cases "query_male_f_surnames p c")
  from assms q1 obtain before where x1: "x1 = Inr before"
    by (cases x1) (auto simp: mode_6_runs_def)
  obtain x2 c2 where op: "optimize_database c1 = (x2, c2)"
    by (cases "optimize_database c1")
  from assms q1 x1 op obtain u where x2: "x2 = Inr u"
    by (cases x2) (auto simp: mode_6_runs_def)
  obtain x3 p2 c3 where q2: "query_male_f_surnames p1 c2 = (x3, p2, c3)"
    by (cases "query_male_f_surnames p1 c2")
  from assms q1 x1 op x2 q2 have x3: "x3 = Inr (ra, ta)" and b: "before = (rb, tb)"
    by (cases x3; auto simp: mode_6_runs_def)+
  from query_Inr [of p c rb tb p1 c1] q1 x1 b have
    a1: "rb = select_male_f c" "tb = time_time p (Suc (reads p)) - time_time p (reads p)"
        "reads p1 = Suc (Suc (reads p))" "time_time p1 = time_time p" "working c1 = working c"
    by simp_all
  from optimize_Inr [of c1 u c2] op x2 have a2: "working c2 = working c1" by simp
  from query_Inr [of p1 c2 ra ta p2 c3] q2 x3 have
    a3: "ra = select_male_f c2" "ta = time_time p1 (Suc (reads p1)) - time_time p1 (reads p1)"
    by simp_all
  from a1(5) a2 have "set (select_male_f c2) = set (select_male_f c)"
    by (intro select_male_f_set) simp
  with a1 a3 show ?thesis by simp
qed

text \<open>
  Claim C4, as amended. When both runs of mode 6 return, the rows fetched before and
  after the index is added are the same set (their order may differ), and each elapsed
  time is non-negative exactly when the two readings of \<^verbatim>\<open>time.time()\<close> around that run
  do not decrease.
\<close>

theorem mode_6_same_rows:
  assumes "mode_6_runs p c = (Inr ((rows_before, time_before), (rows_after, time_after)), p', c')"
  shows "set rows_before = set rows_after \<and>
         (0 \<le> time_before \<longleftrightarrow> time_time p (reads p) \<le> time_time p (reads p + 1)) \<and>
         (0 \<le> time_after \<longleftrightarrow> time_time p (reads p + 2) \<le> time_time p (reads p + 3))"
  using mode_6_runs_Inr [OF assms] by (simp add: numeral_3_eq_3 numeral_2_eq_2)


text \<open>Runs on the concrete platforms.\<close>

lemma strptime_1950: "strptime_iso ''1950-01-01'' = Some (1950, 1, 1)"
  by code_simp

lemma print_two:
  assumes "strptime p = strptime_iso" and "today p = (2024, 6, 1)"
  shows "print_rows p [fletcher, fisher] = Inr [(fletcher, 74), (fisher, 74)]"
    and "print_rows p [fisher, fletcher] = Inr [(fisher, 74), (fletcher, 74)]"
  using assms
  by (simp_all add: calculate_age_def fletcher_def fisher_def strptime_1950)

lemma select_male_f_sample:
  assumes "working c = [fletcher, petrova, fisher]"
  shows "select_male_f c = (if indexed c then [fisher, fletcher] else [fletcher, fisher])"
  using assms
  by (simp add: select_male_f_def like_F_def fletcher_def fisher_def petrova_def)

lemma mode_6_runs_empty_running:
  "mode_6_runs (platform_of wall_running) (table_of [] no_failure) =
     (Inr (([], 2), ([], 1)),
      (platform_of wall_running)\<lparr>reads := 4\<rparr>,
      \<lparr>durable = [], working = [], indexed = True, fails = no_failure, stmts = 4,
       bare_row = first_row, batch_log = []\<rparr>)"
  by (simp add: mode_6_runs_def query_male_f_surnames_def optimize_database_def commit_def
      select_male_f_def platform_of_def table_of_def no_failure_def wall_running_def Let_def
      eval_nat_numeral)

lemma mode_6_runs_sample_running:
  "mode_6_runs (platform_of wall_running) (table_of [fletcher, petrova, fisher] no_failure) =
     (Inr (([fletcher, fisher], 2), ([fisher, fletcher], 1)),
      (platform_of wall_running)\<lparr>reads := 4\<rparr>,
      \<lparr>durable = [fletcher, petrova, fisher], working = [fletcher, petrova, fisher],
       indexed = True, fails = no_failure, stmts = 4, bare_row = first_row, batch_log = []\<rparr>)"
  by (simp add: mode_6_runs_def query_male_f_surnames_def optimize_database_def commit_def
      select_male_f_sample platform_of_def table_of_def no_failure_def wall_running_def Let_def
      eval_nat_numeral print_two del: print_rows.simps)

lemma mode_6_runs_empty_set_back:
  "mode_6_runs (platform_of wall_set_back) (table_of [] no_failure) =
     (Inr (([], - 60), ([], 1)),
      (platform_of wall_set_back)\<lparr>reads := 4\<rparr>,
      \<lparr>durable = [], working = [], indexed = True, fails = no_failure, stmts = 4,
       bare_row = first_row, batch_log = []\<rparr>)"
  by (simp add: mode_6_runs_def query_male_f_surnames_def optimize_database_def commit_def
      select_male_f_def platform_of_def table_of_def no_failure_def wall_set_back_def Let_def
      eval_nat_numeral)

text \<open>
  Claim C3. The claim asks that the improvement be reported as undefined, and the
  division not evaluated, when the first elapsed time is zero. The program has no such
  check: on a wall clock that gives the same reading before and after the first query,
  the first elapsed time is zero, the division of line 235 is evaluated and raises
  ZeroDivisionError, and mode 6 ends in the exception handler of \<^verbatim>\<open>main\<close>.
\<close>

theorem mode_6_zero_elapsed:
  "fst (mode_6_runs (platform_of wall_standing) (table_of [] no_failure))
     = Inr (([], 0), ([], 0)) \<and>
   fst (mode_6 (platform_of wall_standing) (table_of [] no_failure)) = Inl ZeroDivisionError"
  by (simp add: mode_6_def mode_6_runs_def query_male_f_surnames_def optimize_database_def
      commit_def select_male_f_def platform_of_def table_of_def no_failure_def
      wall_standing_def Let_def improvement_def)

text \<open>
  Nor is the number of rows looked at: on an empty table and a running clock the query
  fetches no row, and the improvement is computed by the division and printed as 50.
\<close>

lemma mode_6_zero_rows:
  "fst (mode_6_runs (platform_of wall_running) (table_of [] no_failure))
     = Inr (([], 2), ([], 1)) \<and>
   fst (mode_6 (platform_of wall_running) (table_of [] no_failure)) = Inr 50"
proof -
  have n: "nearest ((platform_of wall_running)\<lparr>reads := 4\<rparr>) = unrounded"
    by (simp add: platform_of_def)
  show ?thesis
    by (simp add: mode_6_def mode_6_runs_empty_running improvement_def n unrounded_def)
qed

text \<open>The rows come in table order before the index and in name order after it.\<close>

theorem mode_6_same_rows_witness:
  "fst (mode_6_runs (platform_of wall_running) (table_of [fletcher, petrova, fisher] no_failure))
     = Inr (([fletcher, fisher], 2), ([fisher, fletcher], 1)) \<and>
   set [fletcher, fisher] = set [fisher, fletcher] \<and>
   [fletcher, fisher] \<noteq> [fisher, fletcher] \<and>
   time_time (platform_of wall_running) (reads (platform_of wall_running))
     \<le> time_time (platform_of wall_running) (reads (platform_of wall_running) + 1) \<and>
   (0::real) \<le> 2"
proof -
  have d: "fletcher \<noteq> fisher" by (simp add: fletcher_def fisher_def)
  have w: "time_time (platform_of wall_running) (reads (platform_of wall_running))
     \<le> time_time (platform_of wall_running) (reads (platform_of wall_running) + 1)"
    by (simp add: platform_of_def wall_running_def)
  show ?thesis
    using mode_6_same_rows [OF mode_6_runs_sample_running] d w
    by (simp add: mode_6_runs_sample_running)
qed

text \<open>
  Claim C4 as stated fails: with the wall clock set back by a minute during the first
  run, the first elapsed time is minus sixty seconds.
\<close>

theorem elapsed_negative_counterexample:
  "fst (mode_6_runs (platform_of wall_set_back) (table_of [] no_failure))
     = Inr (([], - 60), ([], 1)) \<and> (- 60 :: real) < 0"
  by (simp add: mode_6_runs_empty_set_back)




end
